theory Spec2Isabelle
  imports Main "HOL-Library.AList" "HOL-Library.Char_ord" "HOL-Library.List_Lexorder"
begin

section \<open>The build-file syntax tree\<close>

text \<open>
  The merger works on the syntax tree of the buildtools library (imported as \<open>bzl\<close>).
  Every node carries a \<open>Comments\<close> struct with the comment lines before it, on its line
  (suffix) and after it; a comment is kept as its token text. Each Go struct that the
  merger handles through a typed pointer (\<open>*bzl.ListExpr\<close>, \<open>*bzl.DictExpr\<close>,
  \<open>*bzl.CallExpr\<close>, \<open>*bzl.BinaryExpr\<close>) is a type of its own, and \<open>expr\<close> is the
  \<open>bzl.Expr\<close> interface holding one of them. A nil pointer or nil interface is \<open>None\<close>.
  Source positions and the formatting flags that the merger never reads or writes are left
  out; a nil slice and an empty slice are both the empty list.
\<close>

record comments =
  Before :: "string list"
  Suffix :: "string list"
  After :: "string list"

definition noComments :: comments where
  "noComments = \<lparr>Before = [], Suffix = [], After = []\<rparr>"

datatype expr =
    StringExpr comments string
  | LiteralExpr comments string
  | DotExpr comments expr string
  | ListE list_expr
  | DictE dict_expr
  | KeyValueExpr comments expr expr
  | CallE call_expr
  | BinaryE binary_expr
  | OtherExpr comments string
and list_expr =
    ListExpr (l_comments: comments) (l_list: "expr list") (l_multi: bool)
and dict_expr =
    DictExpr (d_comments: comments) (d_list: "expr list") (d_multi: bool)
and call_expr =
    CallExpr (c_comments: comments) (c_x: expr) (c_list: "expr list")
and binary_expr =
    BinaryExpr (b_comments: comments) (b_x: expr) (b_op: string) (b_y: expr)

text \<open>\<open>e.Comment()\<close>: the comments attached to a node.\<close>

fun Comment :: "expr \<Rightarrow> comments" where
  "Comment (StringExpr c _) = c"
| "Comment (LiteralExpr c _) = c"
| "Comment (DotExpr c _ _) = c"
| "Comment (ListE l) = l_comments l"
| "Comment (DictE d) = d_comments d"
| "Comment (KeyValueExpr c _ _) = c"
| "Comment (CallE c) = c_comments c"
| "Comment (BinaryE b) = b_comments b"
| "Comment (OtherExpr c _) = c"

section \<open>Markers\<close>

definition gazelleIgnore :: string where
  "gazelleIgnore = ''# gazelle:ignore''"

definition keep :: string where
  "keep = ''# keep''"

definition mergeableFields :: "string \<Rightarrow> bool" where
  "mergeableFields k = (k = ''srcs'' \<or> k = ''deps'' \<or> k = ''library'')"

text \<open>\<open>strings.HasPrefix\<close>.\<close>

definition HasPrefix :: "string \<Rightarrow> string \<Rightarrow> bool" where
  "HasPrefix s p = (length p \<le> length s \<and> take (length p) s = p)"

definition shouldKeep :: "expr \<Rightarrow> bool" where
  "shouldKeep e =
     (case Suffix (Comment e) of [] \<Rightarrow> False | c # _ \<Rightarrow> HasPrefix c keep)"

fun stringValue :: "expr \<Rightarrow> string" where
  "stringValue (StringExpr _ s) = s"
| "stringValue _ = []"

section \<open>Merging lists\<close>

text \<open>
  The first loop of \<open>mergeList\<close>: it walks the old list, appends every element marked
  keep to \<open>merged\<close> and records its string value in the map \<open>kept\<close> unless that value is
  the empty string. A \<open>map[string]bool\<close> reads false at a missing key, so it is a
  predicate on strings.
\<close>

fun keepOld :: "expr list \<Rightarrow> expr list \<times> (string \<Rightarrow> bool) \<Rightarrow> expr list \<times> (string \<Rightarrow> bool)" where
  "keepOld [] (merged, kept) = (merged, kept)"
| "keepOld (v # vs) (merged, kept) =
     (if shouldKeep v
      then keepOld vs (merged @ [v],
             (if stringValue v \<noteq> [] then kept(stringValue v := True) else kept))
      else keepOld vs (merged, kept))"

text \<open>The second loop: generated elements whose string value is in \<open>kept\<close> are skipped.\<close>

fun addGen :: "expr list \<Rightarrow> (string \<Rightarrow> bool) \<Rightarrow> expr list \<Rightarrow> expr list" where
  "addGen [] kept merged = merged"
| "addGen (v # vs) kept merged =
     (if kept (stringValue v) then addGen vs kept merged
      else addGen vs kept (merged @ [v]))"

definition mergeList :: "list_expr option \<Rightarrow> list_expr option \<Rightarrow> list_expr option" where
  "mergeList gen old =
     (case old of
        None \<Rightarrow> gen
      | Some oldl \<Rightarrow>
          let genl = (case gen of None \<Rightarrow> ListExpr noComments [] False | Some g \<Rightarrow> g);
              (merged0, kept) = keepOld (l_list oldl) ([], \<lambda>_. False);
              merged = addGen (l_list genl) kept merged0
          in if length merged = 0 then None
             else Some (ListExpr noComments merged False))"

text \<open>The elements of a possibly nil list.\<close>

definition elems :: "list_expr option \<Rightarrow> expr list" where
  "elems l = (case l of None \<Rightarrow> [] | Some x \<Rightarrow> l_list x)"

section \<open>Errors\<close>

text \<open>
  The \<open>error\<close> values the merger returns (one constructor per \<open>fmt.Errorf\<close> of the
  source, with the value it formats), and \<open>Panic\<close> for a run-time panic: a nil
  dereference, a slice bound out of range, or \<open>log.Panicf\<close>.
\<close>

datatype error =
    UnknownOperator string
  | LeftOperandNotList
  | RightOperandNotCall
  | RightOperandNotSelect
  | ArgumentNotDict
  | NotMatched
  | DuplicateCase string
  | EntryNotKeyValue expr
  | KeyNotString expr
  | ValueNotList expr
  | Panic string

section \<open>Merging select dictionaries\<close>

record dictEntry =
  key :: string
  oldValue :: "list_expr option"
  genValue :: "list_expr option"
  mergedValue :: "list_expr option"

definition defaultKey :: string where
  "defaultKey = ''//conditions:default''"

fun dictEntryKeyValue :: "expr \<Rightarrow> error + (string \<times> list_expr)" where
  "dictEntryKeyValue (KeyValueExpr c k v) =
     (case k of
        StringExpr _ s \<Rightarrow>
          (case v of ListE l \<Rightarrow> Inr (s, l) | _ \<Rightarrow> Inl (ValueNotList v))
      | _ \<Rightarrow> Inl (KeyNotString k))"
| "dictEntryKeyValue e = Inl (EntryNotKeyValue e)"

text \<open>
  \<open>entries\<close> and \<open>entryMap\<close> hold pointers to the same \<open>dictEntry\<close> values, one per key.
  The model keeps the slice \<open>entries\<close>; \<open>entryMap[k]\<close> is the entry of that key in it, and
  an assignment through the pointer updates the entry in place.
\<close>

definition entryMap :: "dictEntry list \<Rightarrow> string \<Rightarrow> dictEntry option" where
  "entryMap entries k = find (\<lambda>e. key e = k) entries"

fun oldEntries :: "expr list \<Rightarrow> dictEntry list \<Rightarrow> error + dictEntry list" where
  "oldEntries [] entries = Inr entries"
| "oldEntries (kv # kvs) entries =
     (case dictEntryKeyValue kv of
        Inl err \<Rightarrow> Inl err
      | Inr (k, v) \<Rightarrow>
          (case entryMap entries k of
             Some _ \<Rightarrow> Inl (DuplicateCase k)
           | None \<Rightarrow>
               oldEntries kvs
                 (entries @ [\<lparr>key = k, oldValue = Some v, genValue = None, mergedValue = None\<rparr>])))"

fun genEntries :: "expr list \<Rightarrow> dictEntry list \<Rightarrow> error + dictEntry list" where
  "genEntries [] entries = Inr entries"
| "genEntries (kv # kvs) entries =
     (case dictEntryKeyValue kv of
        Inl err \<Rightarrow> Inl err
      | Inr (k, v) \<Rightarrow>
          (case entryMap entries k of
             None \<Rightarrow>
               genEntries kvs
                 (entries @ [\<lparr>key = k, oldValue = None, genValue = Some v, mergedValue = None\<rparr>])
           | Some _ \<Rightarrow>
               genEntries kvs
                 (map (\<lambda>e. if key e = k then e\<lparr>genValue := Some v\<rparr> else e) entries)))"

text \<open>
  The loop that fills \<open>mergedValue\<close>: it returns the entries, the non-default keys whose
  merged value is not nil (in entry order) and \<open>haveDefault\<close>.
\<close>

fun mergeEntries ::
  "dictEntry list \<Rightarrow> dictEntry list \<times> string list \<times> bool \<Rightarrow> dictEntry list \<times> string list \<times> bool" where
  "mergeEntries [] acc = acc"
| "mergeEntries (e # es) (seen, keys, haveDefault) =
     (let m = mergeList (genValue e) (oldValue e) in
      if key e = defaultKey then
        mergeEntries es
          (seen @ [e\<lparr>mergedValue :=
                      (case m of None \<Rightarrow> Some (ListExpr noComments [] False) | Some l \<Rightarrow> Some l)\<rparr>],
           keys, True)
      else if m \<noteq> None then
        mergeEntries es (seen @ [e\<lparr>mergedValue := m\<rparr>], keys @ [key e], haveDefault)
      else
        mergeEntries es (seen @ [e\<lparr>mergedValue := m\<rparr>], keys, haveDefault))"

definition mergedValueOf :: "dictEntry list \<Rightarrow> string \<Rightarrow> list_expr option" where
  "mergedValueOf entries k =
     (case entryMap entries k of None \<Rightarrow> None | Some e \<Rightarrow> mergedValue e)"

text \<open>
  The last loop builds one \<open>KeyValueExpr\<close> per key. Reading a key that has no entry, or an
  entry without a merged value, would dereference nil.
\<close>

fun mergedEntries :: "dictEntry list \<Rightarrow> string list \<Rightarrow> error + expr list" where
  "mergedEntries entries [] = Inr []"
| "mergedEntries entries (k # ks) =
     (case mergedValueOf entries k of
        None \<Rightarrow> Inl (Panic ''nil dereference'')
      | Some v \<Rightarrow>
          (case mergedEntries entries ks of
             Inl err \<Rightarrow> Inl err
           | Inr rest \<Rightarrow>
               Inr (KeyValueExpr noComments (StringExpr noComments k) (ListE v) # rest)))"

definition mergeDict :: "dict_expr option \<Rightarrow> dict_expr option \<Rightarrow> error + dict_expr option" where
  "mergeDict gen old =
     (case old of
        None \<Rightarrow> Inr gen
      | Some oldd \<Rightarrow>
          let gend = (case gen of None \<Rightarrow> DictExpr noComments [] False | Some g \<Rightarrow> g) in
          case oldEntries (d_list oldd) [] of
            Inl err \<Rightarrow> Inl err
          | Inr es1 \<Rightarrow>
              (case genEntries (d_list gend) es1 of
                 Inl err \<Rightarrow> Inl err
               | Inr es2 \<Rightarrow>
                   let (entries, keys, haveDefault) = mergeEntries es2 ([], [], False) in
                   if length keys = 0 \<and>
                      (\<not> haveDefault \<or> length (elems (mergedValueOf entries defaultKey)) = 0)
                   then Inr None
                   else
                     (case mergedEntries entries
                             (sort keys @ (if haveDefault then [defaultKey] else [])) of
                        Inl err \<Rightarrow> Inl err
                      | Inr mergedList \<Rightarrow> Inr (Some (DictExpr noComments mergedList True)))))"

section \<open>Merging expressions\<close>

definition isSelect :: "expr \<Rightarrow> bool" where
  "isSelect x = (case x of LiteralExpr _ tok \<Rightarrow> tok = ''select'' | _ \<Rightarrow> False)"

fun exprListAndDict :: "expr option \<Rightarrow> error + (list_expr option \<times> dict_expr option)" where
  "exprListAndDict None = Inr (None, None)"
| "exprListAndDict (Some (ListE l)) = Inr (Some l, None)"
| "exprListAndDict (Some (CallE c)) =
     (if isSelect (c_x c) \<and> length (c_list c) = 1 then
        (case hd (c_list c) of DictE d \<Rightarrow> Inr (None, Some d) | _ \<Rightarrow> Inl NotMatched)
      else Inl NotMatched)"
| "exprListAndDict (Some (BinaryE b)) =
     (if b_op b \<noteq> ''+'' then Inl (UnknownOperator (b_op b))
      else
        (case b_x b of
           ListE l \<Rightarrow>
             (case b_y b of
                CallE call \<Rightarrow>
                  if length (c_list call) \<noteq> 1 then Inl RightOperandNotCall
                  else if \<not> isSelect (c_x call) then Inl RightOperandNotSelect
                  else
                    (case hd (c_list call) of
                       DictE d \<Rightarrow> Inr (Some l, Some d)
                     | _ \<Rightarrow> Inl ArgumentNotDict)
              | _ \<Rightarrow> Inl RightOperandNotCall)
         | _ \<Rightarrow> Inl LeftOperandNotList))"
| "exprListAndDict (Some _) = Inl NotMatched"

definition isStringExpr :: "expr option \<Rightarrow> bool" where
  "isStringExpr e = (case e of Some (StringExpr _ _) \<Rightarrow> True | _ \<Rightarrow> False)"

definition selectCall :: "dict_expr \<Rightarrow> expr" where
  "selectCall d = CallE (CallExpr noComments (LiteralExpr noComments ''select'') [DictE d])"

text \<open>
  \<open>shouldKeep(old)\<close> calls a method on \<open>old\<close>: on a nil interface that panics.
  \<open>mergedList.ForceMultiLine = true\<close> writes through the pointer \<open>mergeList\<close> returned,
  so the list inside the sum has the flag set.
\<close>

definition mergeExpr :: "expr option \<Rightarrow> expr option \<Rightarrow> error + expr option" where
  "mergeExpr gen old =
     (if isStringExpr gen then
        (case old of
           None \<Rightarrow> Inl (Panic ''nil dereference'')
         | Some oldE \<Rightarrow> if shouldKeep oldE then Inr old else Inr gen)
      else
        case exprListAndDict gen of
          Inl err \<Rightarrow> Inl err
        | Inr (genList, genDict) \<Rightarrow>
            (case exprListAndDict old of
               Inl err \<Rightarrow> Inl err
             | Inr (oldList, oldDict) \<Rightarrow>
                 let mergedList = mergeList genList oldList in
                 (case mergeDict genDict oldDict of
                    Inl err \<Rightarrow> Inl err
                  | Inr mergedDict \<Rightarrow>
                      let mergedSelect = map_option selectCall mergedDict in
                      (case mergedList of
                         None \<Rightarrow> Inr mergedSelect
                       | Some ml \<Rightarrow>
                           (case mergedSelect of
                              None \<Rightarrow> Inr (Some (ListE ml))
                            | Some sel \<Rightarrow>
                                Inr (Some (BinaryE (BinaryExpr noComments
                                       (ListE (ListExpr (l_comments ml) (l_list ml) True))
                                       ''+'' sel))))))))"

section \<open>Rules and files of the buildtools library\<close>

text \<open>
  \<open>bzl.File\<close> and the helper methods of \<open>bzl.Rule\<close> that the merger calls. They belong to
  the buildtools library, not to this repository; they are written here as that library
  defines them. A rule's kind is the literal (or dotted name) it calls, its attributes are
  the arguments of the form \<open>key = value\<close> with a literal key, and \<open>Rules(kind)\<close> lists the
  call statements of a kind, all of them when the kind is the empty string.
\<close>

record bzlFile =
  Path :: string
  Stmt :: "expr list"

fun dotted :: "expr \<Rightarrow> string option" where
  "dotted (LiteralExpr _ tok) = Some tok"
| "dotted (DotExpr _ x nm) = map_option (\<lambda>p. p @ ''.'' @ nm) (dotted x)"
| "dotted _ = None"

definition Kind :: "call_expr \<Rightarrow> string" where
  "Kind c = (case dotted (c_x c) of None \<Rightarrow> [] | Some k \<Rightarrow> k)"

definition attrKey :: "expr \<Rightarrow> string option" where
  "attrKey a =
     (case a of
        BinaryE b \<Rightarrow>
          if b_op b = ''='' then (case b_x b of LiteralExpr _ tok \<Rightarrow> Some tok | _ \<Rightarrow> None)
          else None
      | _ \<Rightarrow> None)"

definition AttrKeys :: "call_expr \<Rightarrow> string list" where
  "AttrKeys c = List.map_filter attrKey (c_list c)"

fun findAttr :: "expr list \<Rightarrow> string \<Rightarrow> binary_expr option" where
  "findAttr [] k = None"
| "findAttr (a # as) k =
     (if attrKey a = Some k then (case a of BinaryE b \<Rightarrow> Some b | _ \<Rightarrow> None)
      else findAttr as k)"

definition AttrDefn :: "call_expr \<Rightarrow> string \<Rightarrow> binary_expr option" where
  "AttrDefn c k = findAttr (c_list c) k"

definition Attr :: "call_expr \<Rightarrow> string \<Rightarrow> expr option" where
  "Attr c k = map_option b_y (AttrDefn c k)"

definition AttrString :: "call_expr \<Rightarrow> string \<Rightarrow> string" where
  "AttrString c k = (case Attr c k of Some (StringExpr _ s) \<Rightarrow> s | _ \<Rightarrow> [])"

definition Name :: "call_expr \<Rightarrow> string" where
  "Name c = AttrString c ''name''"

fun setAttr :: "expr list \<Rightarrow> string \<Rightarrow> expr \<Rightarrow> expr list" where
  "setAttr [] k v = [BinaryE (BinaryExpr noComments (LiteralExpr noComments k) ''='' v)]"
| "setAttr (a # as) k v =
     (if attrKey a = Some k then
        (case a of
           BinaryE b \<Rightarrow> BinaryE (BinaryExpr (b_comments b) (b_x b) (b_op b) v) # as
         | _ \<Rightarrow> a # as)
      else a # setAttr as k v)"

definition SetAttr :: "call_expr \<Rightarrow> string \<Rightarrow> expr \<Rightarrow> call_expr" where
  "SetAttr c k v = CallExpr (c_comments c) (c_x c) (setAttr (c_list c) k v)"

fun Rules :: "expr list \<Rightarrow> string \<Rightarrow> call_expr list" where
  "Rules [] kind = []"
| "Rules (CallE c # stmts) kind =
     (if kind \<noteq> [] \<and> Kind c \<noteq> kind then Rules stmts kind else c # Rules stmts kind)"
| "Rules (_ # stmts) kind = Rules stmts kind"

section \<open>Merging rules\<close>

definition isAssign :: "expr \<Rightarrow> bool" where
  "isAssign a = (case a of BinaryE b \<Rightarrow> b_op b = ''='' | _ \<Rightarrow> False)"

text \<open>The unnamed arguments: the arguments before the first \<open>key = value\<close>.\<close>

fun unnamedArgs :: "expr list \<Rightarrow> expr list" where
  "unnamedArgs [] = []"
| "unnamedArgs (a # as) = (if isAssign a then [] else a # unnamedArgs as)"

text \<open>
  The loop over the old rule's attribute keys, appending to \<open>merged.List\<close>. An error of
  \<open>mergeExpr\<close> makes the generated expression the merged one; a panic is not an error
  value and goes on up.
\<close>

fun mergeOldAttrs :: "call_expr \<Rightarrow> call_expr \<Rightarrow> string list \<Rightarrow> expr list \<Rightarrow> error + expr list" where
  "mergeOldAttrs gen old [] merged = Inr merged"
| "mergeOldAttrs gen old (k # ks) merged =
     (case AttrDefn old k of
        None \<Rightarrow> Inl (Panic ''nil dereference'')
      | Some oldAttr \<Rightarrow>
          if \<not> mergeableFields k then mergeOldAttrs gen old ks (merged @ [BinaryE oldAttr])
          else
            (case mergeExpr (Attr gen k) (Some (b_y oldAttr)) of
               Inl (Panic msg) \<Rightarrow> Inl (Panic msg)
             | Inl _ \<Rightarrow>
                 (case Attr gen k of
                    None \<Rightarrow> mergeOldAttrs gen old ks merged
                  | Some mergedExpr \<Rightarrow>
                      mergeOldAttrs gen old ks
                        (merged @ [BinaryE (BinaryExpr (b_comments oldAttr) (b_x oldAttr)
                                              (b_op oldAttr) mergedExpr)]))
             | Inr None \<Rightarrow> mergeOldAttrs gen old ks merged
             | Inr (Some mergedExpr) \<Rightarrow>
                 mergeOldAttrs gen old ks
                   (merged @ [BinaryE (BinaryExpr (b_comments oldAttr) (b_x oldAttr)
                                         (b_op oldAttr) mergedExpr)])))"

text \<open>The loop over the generated rule's keys: attributes the merged rule lacks are set.\<close>

fun addGenAttrs :: "call_expr \<Rightarrow> string list \<Rightarrow> call_expr \<Rightarrow> error + call_expr" where
  "addGenAttrs gen [] merged = Inr merged"
| "addGenAttrs gen (k # ks) merged =
     (if Attr merged k = None then
        (case Attr gen k of
           None \<Rightarrow> Inl (Panic ''nil attribute'')
         | Some v \<Rightarrow> addGenAttrs gen ks (SetAttr merged k v))
      else addGenAttrs gen ks merged)"

definition mergeRule :: "call_expr \<Rightarrow> call_expr \<Rightarrow> error + call_expr" where
  "mergeRule gen old =
     (case mergeOldAttrs gen old (AttrKeys old) (unnamedArgs (c_list old)) of
        Inl err \<Rightarrow> Inl err
      | Inr merged \<Rightarrow>
          addGenAttrs gen (AttrKeys gen) (CallExpr (c_comments old) (c_x old) merged))"

section \<open>Merging load statements\<close>

definition ruleUsed :: "string \<Rightarrow> bzlFile \<Rightarrow> bool" where
  "ruleUsed rule oldfile = (length (Rules (Stmt oldfile) rule) \<noteq> 0)"

text \<open>
  The map \<open>vals\<close> from symbol name to expression is an association list with one pair per
  key. Its keys are collected and sorted before they are read, so the order in which the
  map would be ranged over does not show.
\<close>

fun genVals :: "expr list \<Rightarrow> (string \<times> expr) list \<Rightarrow> (string \<times> expr) list" where
  "genVals [] vals = vals"
| "genVals (v # vs) vals = genVals vs (AList.update (stringValue v) v vals)"

fun oldVals :: "bzlFile \<Rightarrow> expr list \<Rightarrow> (string \<times> expr) list \<Rightarrow> (string \<times> expr) list" where
  "oldVals oldfile [] vals = vals"
| "oldVals oldfile (v # vs) vals =
     (if map_of vals (stringValue v) = None \<and> ruleUsed (stringValue v) oldfile
      then oldVals oldfile vs (AList.update (stringValue v) v vals)
      else oldVals oldfile vs vals)"

text \<open>
  \<open>gen.List[1:]\<close>, \<open>old.List[1:]\<close> and \<open>old.List[:1]\<close> panic on an empty argument list.
  Every sorted key is a key of \<open>vals\<close>, so each lookup finds its expression.
\<close>

definition mergeLoad :: "call_expr \<Rightarrow> call_expr \<Rightarrow> bzlFile \<Rightarrow> error + call_expr" where
  "mergeLoad gen old oldfile =
     (if c_list gen = [] \<or> c_list old = [] then Inl (Panic ''slice bounds out of range'')
      else
        let vals = oldVals oldfile (tl (c_list old)) (genVals (tl (c_list gen)) []);
            keys = sort (map fst vals)
        in Inr (CallExpr (c_comments old) (c_x old)
                  (take 1 (c_list old) @ List.map_filter (map_of vals) keys)))"

section \<open>Merging files\<close>

definition hasIgnore :: "string list \<Rightarrow> bool" where
  "hasIgnore cs = list_ex (\<lambda>c. HasPrefix c gazelleIgnore) cs"

fun shouldIgnoreStmts :: "expr list \<Rightarrow> bool" where
  "shouldIgnoreStmts [] = False"
| "shouldIgnoreStmts (s # ss) =
     (if hasIgnore (After (Comment s)) then True
      else if hasIgnore (Before (Comment s)) then True
      else shouldIgnoreStmts ss)"

definition shouldIgnore :: "bzlFile \<Rightarrow> bool" where
  "shouldIgnore oldFile = shouldIgnoreStmts (Stmt oldFile)"

text \<open>The two matchers: by kind and name, or for a load statement by its first argument.\<close>

datatype matcher = nameMatcher string string | loadMatcher string

fun matches :: "matcher \<Rightarrow> call_expr \<Rightarrow> bool" where
  "matches (nameMatcher k n) c = (k = Kind c \<and> n = Name c)"
| "matches (loadMatcher l) c =
     (Kind c = ''load'' \<and> length (c_list c) > 0 \<and> l = stringValue (hd (c_list c)))"

fun firstMatch :: "matcher \<Rightarrow> expr list \<Rightarrow> nat \<Rightarrow> (nat \<times> call_expr) option" where
  "firstMatch m [] i = None"
| "firstMatch m (CallE other # stmts) i =
     (if matches m other then Some (i, other) else firstMatch m stmts (Suc i))"
| "firstMatch m (_ # stmts) i = firstMatch m stmts (Suc i)"

text \<open>\<open>match\<close> returns \<open>(-1, nil)\<close> when nothing matches: here \<open>None\<close>.\<close>

definition match :: "bzlFile \<Rightarrow> call_expr \<Rightarrow> (nat \<times> call_expr) option" where
  "match f c =
     (if Kind c = ''load'' then
        (if length (c_list c) = 0 then None
         else firstMatch (loadMatcher (stringValue (hd (c_list c)))) (Stmt f) 0)
      else firstMatch (nameMatcher (Kind c) (Name c)) (Stmt f) 0)"

text \<open>
  The loop of \<open>MergeWithExisting\<close> over the generated statements. \<open>oldStmt\<close> shares its
  array with \<open>oldFile.Stmt\<close>, so \<open>oldStmt[i] = mergedRule\<close> changes the file that \<open>match\<close>
  and \<open>ruleUsed\<close> read in the later rounds: the file is the state of the loop, together
  with \<open>newStmt\<close>.
\<close>

fun mergeStmts :: "expr list \<Rightarrow> bzlFile \<Rightarrow> expr list \<Rightarrow> error + (bzlFile \<times> expr list)" where
  "mergeStmts [] oldFile newStmt = Inr (oldFile, newStmt)"
| "mergeStmts (CallE genRule # ss) oldFile newStmt =
     (case match oldFile genRule of
        None \<Rightarrow> mergeStmts ss oldFile (newStmt @ [CallE genRule])
      | Some (i, oldRule) \<Rightarrow>
          (case (if Kind oldRule = ''load'' then mergeLoad genRule oldRule oldFile
                 else mergeRule genRule oldRule) of
             Inl err \<Rightarrow> Inl err
           | Inr mergedRule \<Rightarrow>
               mergeStmts ss (oldFile\<lparr>Stmt := (Stmt oldFile)[i := CallE mergedRule]\<rparr>) newStmt))"
| "mergeStmts (_ # ss) oldFile newStmt = Inl (Panic ''expected only CallExpr'')"

text \<open>
  The outside of \<open>MergeWithExisting\<close>: the files on disk (path to content), the log, and
  the parser of the buildtools library, which is a parameter. Reading a path that has no
  file is the error \<open>ReadError\<close>. The function returns the merged file, or nil, and the
  world after the call.
\<close>

datatype ioError = ReadError string | ParseError string

record world =
  files :: "string \<Rightarrow> string option"
  logged :: "ioError list"

definition ReadFile :: "world \<Rightarrow> string \<Rightarrow> ioError + string" where
  "ReadFile w path = (case files w path of None \<Rightarrow> Inl (ReadError path) | Some d \<Rightarrow> Inr d)"

definition logPrint :: "ioError \<Rightarrow> world \<Rightarrow> world" where
  "logPrint e w = w\<lparr>logged := logged w @ [e]\<rparr>"

definition MergeWithExisting ::
  "(string \<Rightarrow> string \<Rightarrow> ioError + bzlFile) \<Rightarrow> bzlFile \<Rightarrow> string \<Rightarrow> world
     \<Rightarrow> error + (bzlFile option \<times> world)" where
  "MergeWithExisting Parse genFile existingFilePath w =
     (case ReadFile w existingFilePath of
        Inl err \<Rightarrow> Inr (None, logPrint err w)
      | Inr oldData \<Rightarrow>
          (case Parse existingFilePath oldData of
             Inl err \<Rightarrow> Inr (None, logPrint err w)
           | Inr oldFile \<Rightarrow>
               if shouldIgnore oldFile then Inr (None, w)
               else
                 (case mergeStmts (Stmt genFile) oldFile [] of
                    Inl err \<Rightarrow> Inl err
                  | Inr (oldFile', newStmt) \<Rightarrow>
                      Inr (Some (oldFile'\<lparr>Stmt := Stmt oldFile' @ newStmt\<rparr>), w))))"

section \<open>The package walker\<close>

text \<open>
  The walker of package \<open>packages\<close>. The types \<open>Package\<close> and \<open>fileInfo\<close> and the functions
  \<open>goFileInfo\<close>, \<open>otherFileInfo\<close>, \<open>addFile\<close>, \<open>HasGo\<close> and \<open>firstGoFile\<close> are defined in
  files of the repository that are not among the sources at hand, so a package is a type
  parameter and these functions are parameters, collected in a record. The build tags and
  the platform constraints are only handed on to them and stay inside the parameters. Of a
  \<open>fileInfo\<close> the walker reads the package name and the cgo flag.
\<close>

datatype pkgError =
    NoGoError string
  | MultiplePackageError string "string list" "string list"
  | OtherError string

record fileInfo =
  name :: string
  packageName :: string
  isCgo :: bool

record 'pkg packageOps =
  newPackage :: "string \<Rightarrow> string \<Rightarrow> 'pkg"
  addFile :: "'pkg \<Rightarrow> fileInfo \<Rightarrow> bool \<Rightarrow> 'pkg \<times> pkgError option"
  HasGo :: "'pkg \<Rightarrow> bool"
  firstGoFile :: "'pkg \<Rightarrow> string"
  goFileInfo :: "string \<Rightarrow> string \<Rightarrow> pkgError + fileInfo"
  otherFileInfo :: "string \<Rightarrow> string \<Rightarrow> pkgError + fileInfo"

record packageReader =
  repoRoot :: string
  goPrefix :: string
  dir :: string

text \<open>
  \<open>path.Base\<close> of the Go library: the last element of a slash-separated path, after the
  trailing slashes are removed; \<open>.\<close> for the empty path and \<open>/\<close> for a path of slashes
  only. \<open>filepath.Base\<close> is the same function where the separator is the slash.
\<close>

definition stripTrailingSlashes :: "string \<Rightarrow> string" where
  "stripTrailingSlashes p = rev (dropWhile (\<lambda>c. c = CHR ''/'') (rev p))"

definition lastElement :: "string \<Rightarrow> string" where
  "lastElement p = rev (takeWhile (\<lambda>c. c \<noteq> CHR ''/'') (rev p))"

definition pathBase :: "string \<Rightarrow> string" where
  "pathBase p =
     (if p = [] then ''.''
      else let q = lastElement (stripTrailingSlashes p) in if q = [] then ''/'' else q)"

definition filepathBase :: "string \<Rightarrow> string" where
  "filepathBase p = pathBase p"

definition defaultPackageName :: "packageReader \<Rightarrow> string" where
  "defaultPackageName pr =
     (if dir pr \<noteq> repoRoot pr then filepathBase (dir pr)
      else let nm = pathBase (goPrefix pr) in
           if nm = ''.'' \<or> nm = ''/'' then ''unnamed'' else nm)"

text \<open>
  \<open>packageMap\<close> is a Go map from package name to package: an association list with one
  pair per name. Go leaves the order of a \<open>range\<close> over a map open; the order of the list
  stands for it, and it shows only in the order of the names and files of a
  \<open>MultiplePackageError\<close>.
\<close>

definition selectPackage ::
  "'pkg packageOps \<Rightarrow> packageReader \<Rightarrow> (string \<times> 'pkg) list \<Rightarrow> pkgError + 'pkg" where
  "selectPackage ops pr packageMap =
     (let packagesWithGo = filter (\<lambda>p. HasGo ops (snd p)) packageMap in
      if length packagesWithGo = 0 then Inl (NoGoError (dir pr))
      else if length packagesWithGo = 1 then Inr (snd (hd packagesWithGo))
      else
        (case map_of packagesWithGo (defaultPackageName pr) of
           Some pkg \<Rightarrow> Inr pkg
         | None \<Rightarrow>
             Inl (MultiplePackageError (dir pr)
                    (map fst packagesWithGo)
                    (map (\<lambda>p. firstGoFile ops (snd p)) packagesWithGo))))"

text \<open>\<open>strings.HasSuffix\<close>.\<close>

definition HasSuffix :: "string \<Rightarrow> string \<Rightarrow> bool" where
  "HasSuffix s x = (length x \<le> length s \<and> drop (length s - length x) s = x)"



















section \<open>Notions used to state the properties\<close>

text \<open>
  The string values that \<open>mergeList\<close> records in \<open>kept\<close>: those of the elements marked
  keep, the empty string left out.
\<close>

definition keptValues :: "expr list \<Rightarrow> string set" where
  "keptValues vs = {s \<in> stringValue ` set (filter shouldKeep vs). s \<noteq> []}"

text \<open>
  The list merge as the specification words it: the kept elements, then the generated
  elements whose string value is not the string value of a kept element.
\<close>

definition mergeList_as_specified :: "list_expr option \<Rightarrow> list_expr option \<Rightarrow> expr list" where
  "mergeList_as_specified gen old =
     filter shouldKeep (elems old) @
     filter (\<lambda>v. stringValue v \<notin> stringValue ` set (filter shouldKeep (elems old))) (elems gen)"

text \<open>A suffix comment that marks its expression keep.\<close>

definition keepComment :: comments where
  "keepComment = \<lparr>Before = [], Suffix = [''# keep''], After = []\<rparr>"

text \<open>
  The cases of a select dictionary: the key and the list of every entry that
  \<open>dictEntryKeyValue\<close> accepts, in order. The value of a case is the one of the last
  entry with that key, the keys are those of all entries, and the merged value of a key is
  the list merge of its generated and its existing value (nil where the key is missing).
\<close>

fun dictPairs :: "expr list \<Rightarrow> (string \<times> list_expr) list" where
  "dictPairs [] = []"
| "dictPairs (kv # kvs) =
     (case dictEntryKeyValue kv of Inr p \<Rightarrow> p # dictPairs kvs | Inl _ \<Rightarrow> dictPairs kvs)"

definition caseValue :: "dict_expr option \<Rightarrow> string \<Rightarrow> list_expr option" where
  "caseValue d k = (case d of None \<Rightarrow> None | Some x \<Rightarrow> map_of (rev (dictPairs (d_list x))) k)"

definition caseKeys :: "dict_expr option \<Rightarrow> string set" where
  "caseKeys d = (case d of None \<Rightarrow> {} | Some x \<Rightarrow> fst ` set (dictPairs (d_list x)))"

definition mergedCase :: "dict_expr option \<Rightarrow> dict_expr option \<Rightarrow> string \<Rightarrow> list_expr option" where
  "mergedCase gen old k = mergeList (caseValue gen k) (caseValue old k)"

definition entryKey :: "expr \<Rightarrow> string" where
  "entryKey e = (case dictEntryKeyValue e of Inr (k, v) \<Rightarrow> k | Inl _ \<Rightarrow> [])"

definition hasDefault :: "dict_expr option \<Rightarrow> dict_expr option \<Rightarrow> bool" where
  "hasDefault gen old = (defaultKey \<in> caseKeys gen \<union> caseKeys old)"

text \<open>
  Two dictionaries for a concrete merge: generated \<open>{"a": ["z"]}\<close>, existing
  \<open>{"//conditions:default": ["x"], "b": ["y" # keep]}\<close>.
\<close>

definition exampleGenDict :: dict_expr where
  "exampleGenDict =
     DictExpr noComments
       [KeyValueExpr noComments (StringExpr noComments ''a'')
          (ListE (ListExpr noComments [StringExpr noComments ''z''] False))] False"

definition exampleOldDict :: dict_expr where
  "exampleOldDict =
     DictExpr noComments
       [KeyValueExpr noComments (StringExpr noComments ''//conditions:default'')
          (ListE (ListExpr noComments [StringExpr noComments ''x''] False)),
        KeyValueExpr noComments (StringExpr noComments ''b'')
          (ListE (ListExpr noComments [StringExpr keepComment ''y''] False))] False"

definition exampleMergedDict :: dict_expr where
  "exampleMergedDict =
     DictExpr noComments
       [KeyValueExpr noComments (StringExpr noComments ''a'')
          (ListE (ListExpr noComments [StringExpr noComments ''z''] False)),
        KeyValueExpr noComments (StringExpr noComments ''b'')
          (ListE (ListExpr noComments [StringExpr keepComment ''y''] False)),
        KeyValueExpr noComments (StringExpr noComments ''//conditions:default'')
          (ListE (ListExpr noComments [] False))] True"

text \<open>
  A concrete existing file for the ignore marker: a parser that reads every content as one
  statement with the comment \<open># gazelle:ignore\<close> before it, a disk with one build file,
  and a generated file with one rule.
\<close>

definition ignoredFile :: bzlFile where
  "ignoredFile =
     \<lparr>Path = ''BUILD'',
      Stmt = [CallE (CallExpr \<lparr>Before = [''# gazelle:ignore''], Suffix = [], After = []\<rparr>
                       (LiteralExpr noComments ''go_library'') [])]\<rparr>"

definition ignoredWorld :: world where
  "ignoredWorld = \<lparr>files = (\<lambda>p. if p = ''BUILD'' then Some ''go_library()'' else None), logged = []\<rparr>"

definition exampleGenFile :: bzlFile where
  "exampleGenFile =
     \<lparr>Path = ''BUILD'',
      Stmt = [CallE (CallExpr noComments (LiteralExpr noComments ''go_library'') [])]\<rparr>"













text \<open>
  A concrete instance of the parameters: a package is its name and the names of its
  files; a Go file \<open>x.go\<close> declares package \<open>x\<close>, except that a file \<open>..._bad.go\<close> cannot be
  read; a package has Go code when one of its files ends in \<open>.go\<close>.
\<close>

definition exampleOps :: "(string \<times> string list) packageOps" where
  "exampleOps =
     \<lparr>newPackage = (\<lambda>n d. (n, [])),
      addFile = (\<lambda>p info cgo. ((fst p, snd p @ [name info]), None)),
      HasGo = (\<lambda>p. list_ex (\<lambda>f. HasSuffix f ''.go'') (snd p)),
      firstGoFile = (\<lambda>p. case filter (\<lambda>f. HasSuffix f ''.go'') (snd p) of [] \<Rightarrow> [] | f # _ \<Rightarrow> f),
      goFileInfo = (\<lambda>d n. if HasSuffix n ''_bad.go'' then Inl (OtherError n)
                           else Inr \<lparr>name = n, packageName = take (length n - 3) n, isCgo = False\<rparr>),
      otherFileInfo = (\<lambda>d n. Inr \<lparr>name = n, packageName = [], isCgo = False\<rparr>)\<rparr>"

definition fooBar :: "(string \<times> (string \<times> string list)) list" where
  "fooBar = [(''foo'', (''foo'', [''foo.go''])), (''bar'', (''bar'', [''bar.go'']))]"



section \<open>Auxiliary notions for the proofs\<close>

text \<open>
  The loops of \<open>mergeDict\<close> in closed form: what an entry list holds for a key, the entry
  made from an old pair, one round of the loop over the generated pairs, one round of the
  loop that merges, and the dictionary that comes out.
\<close>

definition oldOf :: "dictEntry list \<Rightarrow> string \<Rightarrow> list_expr option" where
  "oldOf es k = (case entryMap es k of None \<Rightarrow> None | Some e \<Rightarrow> oldValue e)"
definition genOf :: "dictEntry list \<Rightarrow> string \<Rightarrow> list_expr option" where
  "genOf es k = (case entryMap es k of None \<Rightarrow> None | Some e \<Rightarrow> genValue e)"

definition oldEntry :: "string \<times> list_expr \<Rightarrow> dictEntry" where
  "oldEntry p = \<lparr>key = fst p, oldValue = Some (snd p), genValue = None, mergedValue = None\<rparr>"

fun addGenPair :: "dictEntry list \<Rightarrow> string \<times> list_expr \<Rightarrow> dictEntry list" where
  "addGenPair es (k, v) =
     (case entryMap es k of
        None \<Rightarrow> es @ [\<lparr>key = k, oldValue = None, genValue = Some v, mergedValue = None\<rparr>]
      | Some _ \<Rightarrow> map (\<lambda>e. if key e = k then e\<lparr>genValue := Some v\<rparr> else e) es)"

definition mergeEntry :: "dictEntry \<Rightarrow> dictEntry" where
  "mergeEntry e =
     (let m = mergeList (genValue e) (oldValue e) in
      e\<lparr>mergedValue := (if key e = defaultKey
                         then (case m of None \<Rightarrow> Some (ListExpr noComments [] False) | Some l \<Rightarrow> Some l)
                         else m)\<rparr>)"

definition dictList :: "dict_expr option \<Rightarrow> expr list" where
  "dictList d = (case d of None \<Rightarrow> [] | Some x \<Rightarrow> d_list x)"

definition finalEntries :: "dict_expr option \<Rightarrow> dict_expr \<Rightarrow> dictEntry list" where
  "finalEntries gen oldd =
     foldl addGenPair (map oldEntry (dictPairs (d_list oldd))) (dictPairs (dictList gen))"

definition coerced :: "list_expr option \<Rightarrow> list_expr" where
  "coerced m = (case m of None \<Rightarrow> ListExpr noComments [] False | Some l \<Rightarrow> l)"

definition mergedOut :: "dict_expr option \<Rightarrow> dict_expr option \<Rightarrow> string \<Rightarrow> list_expr" where
  "mergedOut gen old k =
     (if k = defaultKey then coerced (mergedCase gen old k) else the (mergedCase gen old k))"

definition liveKeys :: "dict_expr option \<Rightarrow> dict_expr \<Rightarrow> string list" where
  "liveKeys gen oldd =
     filter (\<lambda>k. k \<noteq> defaultKey \<and> mergedCase gen (Some oldd) k \<noteq> None)
       (map key (finalEntries gen oldd))"

definition keyValue :: "dict_expr option \<Rightarrow> dict_expr option \<Rightarrow> string \<Rightarrow> expr" where
  "keyValue gen old k =
     KeyValueExpr noComments (StringExpr noComments k) (ListE (mergedOut gen old k))"

definition mergedDictOf :: "dict_expr option \<Rightarrow> dict_expr \<Rightarrow> dict_expr option" where
  "mergedDictOf gen oldd =
     (if liveKeys gen oldd = [] \<and>
         (\<not> hasDefault gen (Some oldd) \<or> l_list (coerced (mergedCase gen (Some oldd) defaultKey)) = [])
      then None
      else Some (DictExpr noComments
                   (map (keyValue gen (Some oldd))
                      (sort (liveKeys gen oldd) @
                       (if hasDefault gen (Some oldd) then [defaultKey] else [])))
                   True))"

text \<open>
  The loops of \<open>mergeRule\<close> in closed form: the merged value of an old attribute, the
  arguments it contributes, the attributes taken over from the generated rule, and the
  argument list before those are added. \<open>valsOk\<close> is the invariant of the map \<open>vals\<close> of
  \<open>mergeLoad\<close>.
\<close>

definition isPanic :: "error \<Rightarrow> bool" where
  "isPanic e = (case e of Panic _ \<Rightarrow> True | _ \<Rightarrow> False)"

definition mergedValueFor :: "call_expr \<Rightarrow> binary_expr \<Rightarrow> string \<Rightarrow> expr option" where
  "mergedValueFor gen oldAttr k =
     (case mergeExpr (Attr gen k) (Some (b_y oldAttr)) of
        Inl _ \<Rightarrow> Attr gen k
      | Inr m \<Rightarrow> m)"

definition mergedAttr :: "call_expr \<Rightarrow> call_expr \<Rightarrow> string \<Rightarrow> expr list" where
  "mergedAttr gen old k =
     (case AttrDefn old k of
        None \<Rightarrow> []
      | Some oldAttr \<Rightarrow>
          if \<not> mergeableFields k then [BinaryE oldAttr]
          else (case mergedValueFor gen oldAttr k of
                  None \<Rightarrow> []
                | Some e \<Rightarrow> [BinaryE (BinaryExpr (b_comments oldAttr) (b_x oldAttr) (b_op oldAttr) e)]))"

definition newAttr :: "call_expr \<Rightarrow> string \<Rightarrow> expr" where
  "newAttr gen k =
     BinaryE (BinaryExpr noComments (LiteralExpr noComments k) ''=''
                (case Attr gen k of Some v \<Rightarrow> v | None \<Rightarrow> OtherExpr noComments []))"

fun newAttrs :: "call_expr \<Rightarrow> string list \<Rightarrow> string list \<Rightarrow> expr list" where
  "newAttrs gen [] present = []"
| "newAttrs gen (k # ks) present =
     (if k \<in> set present then newAttrs gen ks present
      else newAttr gen k # newAttrs gen ks (present @ [k]))"

definition mergedArgs :: "call_expr \<Rightarrow> call_expr \<Rightarrow> expr list" where
  "mergedArgs gen old =
     unnamedArgs (c_list old) @ concat (map (mergedAttr gen old) (AttrKeys old))"

definition valsOk :: "expr set \<Rightarrow> (string \<times> expr) list \<Rightarrow> bool" where
  "valsOk S vals = (distinct (map fst vals) \<and> (\<forall>p\<in>set vals. stringValue (snd p) = fst p \<and> snd p \<in> S))"


section \<open>The form of a generated file that a second merge leaves alone\<close>

text \<open>
  A list as \<open>mergeList\<close> writes it: no comments on the list node, no element marked keep,
  and the given \<open>ForceMultiLine\<close> flag (\<open>mergeExpr\<close> sets the flag on the list operand of a
  list \<open>+\<close> select and nowhere else).
\<close>

definition noKeeps :: "expr list \<Rightarrow> bool" where
  "noKeeps vs = list_all (\<lambda>v. \<not> shouldKeep v) vs"

definition plainList :: "bool \<Rightarrow> list_expr \<Rightarrow> bool" where
  "plainList multi l = (l_comments l = noComments \<and> l_multi l = multi \<and> noKeeps (l_list l))"

text \<open>
  A dictionary as \<open>mergeDict\<close> writes it: every entry is \<open>key: [...]\<close> without comments,
  the lists are plain, only the default case may be an empty list, the keys other than
  \<open>//conditions:default\<close> are strictly ascending and the default key, if there is one, is
  last; the dictionary has a case other than the default or a default that is not empty.
\<close>

definition keyValueExpr :: "string \<Rightarrow> list_expr \<Rightarrow> expr" where
  "keyValueExpr k v = KeyValueExpr noComments (StringExpr noComments k) (ListE v)"

definition genEntryOk :: "expr \<Rightarrow> bool" where
  "genEntryOk kv =
     (case dictEntryKeyValue kv of
        Inr (k, v) \<Rightarrow> plainList False v \<and> (k \<noteq> defaultKey \<longrightarrow> l_list v \<noteq> [])
      | Inl _ \<Rightarrow> False)"

definition genDictOk :: "dict_expr option \<Rightarrow> bool" where
  "genDictOk gd = list_all genEntryOk (dictList gd)"

definition normalEntry :: "expr \<Rightarrow> bool" where
  "normalEntry kv =
     (case dictEntryKeyValue kv of
        Inr (k, v) \<Rightarrow> kv = keyValueExpr k v
      | Inl _ \<Rightarrow> False)"

definition keysOk :: "string list \<Rightarrow> bool" where
  "keysOk ks =
     (ks = filter (\<lambda>k. k \<noteq> defaultKey) ks @ (if defaultKey \<in> set ks then [defaultKey] else [])
      \<and> sorted_wrt (<) (filter (\<lambda>k. k \<noteq> defaultKey) ks))"

definition normalDict :: "dict_expr \<Rightarrow> bool" where
  "normalDict gd =
     (d_comments gd = noComments \<and> d_multi gd \<and>
      list_all normalEntry (d_list gd) \<and> genDictOk (Some gd) \<and>
      keysOk (map entryKey (d_list gd)) \<and>
      (filter (\<lambda>k. k \<noteq> defaultKey) (map entryKey (d_list gd)) \<noteq> [] \<or>
       elems (caseValue (Some gd) defaultKey) \<noteq> []))"

text \<open>
  The end of \<open>mergeExpr\<close>: a merged list and a merged dictionary are put together into a
  list, a \<open>select\<close>, or a list \<open>+\<close> \<open>select\<close>. A value of a mergeable attribute is in merged
  form when it is a string, or when it takes apart into a non-empty plain list and a
  dictionary in merged form that \<open>combine\<close> puts together to the same value.
\<close>

definition combine :: "list_expr option \<Rightarrow> dict_expr option \<Rightarrow> expr option" where
  "combine ml md =
     (case ml of
        None \<Rightarrow> map_option selectCall md
      | Some l \<Rightarrow>
          (case md of
             None \<Rightarrow> Some (ListE l)
           | Some d \<Rightarrow>
               Some (BinaryE (BinaryExpr noComments
                       (ListE (ListExpr (l_comments l) (l_list l) True)) ''+'' (selectCall d)))))"

definition genValueOk :: "expr \<Rightarrow> bool" where
  "genValueOk v =
     (isStringExpr (Some v) \<or>
      (case exprListAndDict (Some v) of
         Inl _ \<Rightarrow> False
       | Inr (gl, gd) \<Rightarrow>
           (case gl of None \<Rightarrow> True | Some l \<Rightarrow> plainList (gd \<noteq> None) l \<and> l_list l \<noteq> []) \<and>
           (case gd of None \<Rightarrow> True | Some d \<Rightarrow> normalDict d) \<and>
           combine gl gd = Some v))"

text \<open>
  A generated rule in merged form: after the unnamed arguments every argument is
  \<open>key = value\<close>, no key occurs twice, and the values of the mergeable keys are in merged
  form. A generated load statement in merged form has its path argument and names its
  symbols in strictly ascending order.
\<close>

definition genAttrOk :: "expr \<Rightarrow> bool" where
  "genAttrOk a =
     (case a of
        BinaryE b \<Rightarrow>
          (case attrKey a of
             None \<Rightarrow> False
           | Some k \<Rightarrow> mergeableFields k \<longrightarrow> genValueOk (b_y b))
      | _ \<Rightarrow> False)"

definition namedArgs :: "expr list \<Rightarrow> expr list" where
  "namedArgs as = drop (length (unnamedArgs as)) as"

definition genRuleOk :: "call_expr \<Rightarrow> bool" where
  "genRuleOk g =
     (list_all genAttrOk (namedArgs (c_list g)) \<and>
      distinct (List.map_filter attrKey (namedArgs (c_list g))))"

definition genLoadOk :: "call_expr \<Rightarrow> bool" where
  "genLoadOk g = (c_list g \<noteq> [] \<and> sorted_wrt (<) (map stringValue (tl (c_list g))))"

text \<open>
  The matcher that \<open>match\<close> builds for a call: a \<open>loadMatcher\<close> for a load statement (none
  when it has no argument), a \<open>nameMatcher\<close> otherwise. A generated file in merged form
  consists of rules and load statements in merged form without an ignore marker, no two
  of which have the same matcher.
\<close>

definition matcherOf :: "call_expr \<Rightarrow> matcher option" where
  "matcherOf c =
     (if Kind c = ''load'' then
        (if c_list c = [] then None else Some (loadMatcher (stringValue (hd (c_list c)))))
      else Some (nameMatcher (Kind c) (Name c)))"

definition stmtMatcher :: "expr \<Rightarrow> matcher option" where
  "stmtMatcher e = (case e of CallE c \<Rightarrow> matcherOf c | _ \<Rightarrow> None)"

definition noIgnore :: "expr \<Rightarrow> bool" where
  "noIgnore e = (\<not> hasIgnore (After (Comment e)) \<and> \<not> hasIgnore (Before (Comment e)))"

definition genStmtOk :: "expr \<Rightarrow> bool" where
  "genStmtOk e =
     (case e of
        CallE g \<Rightarrow> (if Kind g = ''load'' then genLoadOk g else genRuleOk g) \<and> noIgnore e
      | _ \<Rightarrow> False)"

definition genFileOk :: "bzlFile \<Rightarrow> bool" where
  "genFileOk genFile =
     (list_all genStmtOk (Stmt genFile) \<and> distinct (map stmtMatcher (Stmt genFile)))"

section \<open>Auxiliary notions for the second merge\<close>

text \<open>
  \<open>mergedOr\<close> is the value \<open>mergeRule\<close> takes for a mergeable attribute: the result of
  \<open>mergeExpr\<close>, or the generated value when \<open>mergeExpr\<close> returns an error. \<open>attrFixed\<close> says
  that a named argument is the definition of its key and is left as it is by a merge with
  the generated rule.
\<close>

definition parses :: "expr \<Rightarrow> bool" where
  "parses kv = (case dictEntryKeyValue kv of Inr _ \<Rightarrow> True | Inl _ \<Rightarrow> False)"

definition genListOk :: "list_expr option \<Rightarrow> bool" where
  "genListOk g = (case g of None \<Rightarrow> True | Some gl \<Rightarrow> plainList False gl)"

definition mergedOr :: "expr option \<Rightarrow> expr \<Rightarrow> expr option" where
  "mergedOr g old = (case mergeExpr g (Some old) of Inl _ \<Rightarrow> g | Inr m \<Rightarrow> m)"

definition genValueOpt :: "expr option \<Rightarrow> bool" where
  "genValueOpt g = (case g of None \<Rightarrow> True | Some v \<Rightarrow> genValueOk v)"

definition partsOk :: "list_expr option \<Rightarrow> dict_expr option \<Rightarrow> bool" where
  "partsOk gl gd =
     ((case gl of None \<Rightarrow> True | Some l \<Rightarrow> plainList (gd \<noteq> None) l \<and> l_list l \<noteq> []) \<and>
      (case gd of None \<Rightarrow> True | Some d \<Rightarrow> normalDict d))"

definition attrFixed :: "call_expr \<Rightarrow> expr list \<Rightarrow> expr \<Rightarrow> bool" where
  "attrFixed g L a =
     (case a of
        BinaryE b \<Rightarrow>
          (case attrKey a of
             None \<Rightarrow> False
           | Some k \<Rightarrow>
               findAttr L k = Some b \<and>
               (mergeableFields k \<longrightarrow> mergedOr (Attr g k) (b_y b) = Some (b_y b)))
      | _ \<Rightarrow> False)"

text \<open>The map \<open>vals\<close> of \<open>mergeLoad\<close>, and the first symbol of a list with a given name.\<close>

definition firstSym :: "expr list \<Rightarrow> string \<Rightarrow> expr option" where
  "firstSym vs k = find (\<lambda>v. stringValue v = k) vs"

definition valsOf :: "call_expr \<Rightarrow> call_expr \<Rightarrow> bzlFile \<Rightarrow> (string \<times> expr) list" where
  "valsOf gen old oldfile = oldVals oldfile (tl (c_list old)) (genVals (tl (c_list gen)) [])"

text \<open>
  What the loop of \<open>MergeWithExisting\<close> keeps of a statement it replaces: its matcher, its
  kind and its comments. \<open>firstPos\<close> is the index of the first occurrence in a list, and
  \<open>mergeMatched\<close> the merge of a generated statement with the statement it matched.
\<close>

definition stmtKind :: "expr \<Rightarrow> string option" where
  "stmtKind e = (case e of CallE c \<Rightarrow> Some (Kind c) | _ \<Rightarrow> None)"

definition shape :: "expr \<Rightarrow> matcher option \<times> string option \<times> comments" where
  "shape e = (stmtMatcher e, stmtKind e, Comment e)"

fun firstPos :: "'a \<Rightarrow> 'a list \<Rightarrow> nat option" where
  "firstPos x [] = None"
| "firstPos x (y # ys) = (if x = y then Some 0 else map_option Suc (firstPos x ys))"

definition mergeMatched :: "call_expr \<Rightarrow> call_expr \<Rightarrow> bzlFile \<Rightarrow> error + call_expr" where
  "mergeMatched genRule oldRule oldFile =
     (if Kind oldRule = ''load'' then mergeLoad genRule oldRule oldFile
      else mergeRule genRule oldRule)"

text \<open>
  The invariant of the loop. A merged statement is settled when merging the generated
  statement with it again returns it, in every file that uses at least the rules the old
  file uses. After the loop the statements have their shapes, every statement first
  matched by a generated one is settled, and the others are untouched; the generated
  statements that matched nothing are appended in their order.
\<close>

definition settled :: "call_expr \<Rightarrow> call_expr \<Rightarrow> bzlFile \<Rightarrow> bool" where
  "settled g s F = (\<forall>f'. (\<forall>n. ruleUsed n F \<longrightarrow> ruleUsed n f') \<longrightarrow> mergeMatched g s f' = Inr s)"

definition unmatched :: "bzlFile \<Rightarrow> expr list \<Rightarrow> expr list" where
  "unmatched F gs = filter (\<lambda>e. stmtMatcher e \<notin> set (map stmtMatcher (Stmt F))) gs"

definition passInv :: "expr list \<Rightarrow> bzlFile \<Rightarrow> bzlFile \<Rightarrow> bool" where
  "passInv gs F F' =
     (map shape (Stmt F') = map shape (Stmt F) \<and>
      (\<forall>e\<in>set gs. \<forall>t. firstPos (stmtMatcher e) (map stmtMatcher (Stmt F)) = Some t \<longrightarrow>
         (\<exists>g s. e = CallE g \<and> Stmt F' ! t = CallE s \<and> settled g s F)) \<and>
      (\<forall>t<length (Stmt F).
         (\<forall>e\<in>set gs. firstPos (stmtMatcher e) (map stmtMatcher (Stmt F)) \<noteq> Some t) \<longrightarrow>
         Stmt F' ! t = Stmt F ! t))"

text \<open>The file \<open>MergeWithExisting\<close> returns for a parsed file that is not ignored.\<close>

definition mergedFile :: "bzlFile \<Rightarrow> bzlFile \<Rightarrow> bzlFile option" where
  "mergedFile genFile oldFile =
     (case mergeStmts (Stmt genFile) oldFile [] of
        Inl _ \<Rightarrow> None
      | Inr (oldFile', newStmt) \<Rightarrow> Some (oldFile'\<lparr>Stmt := Stmt oldFile' @ newStmt\<rparr>))"

section \<open>Example files for the second merge\<close>

text \<open>
  Constructors for build files without comments, a parser given by a table from file
  content to syntax tree, and a disk given by a table from path to content.
\<close>

definition strE :: "string \<Rightarrow> expr" where
  "strE s = StringExpr noComments s"

definition keepE :: "string \<Rightarrow> expr" where
  "keepE s = StringExpr keepComment s"

definition listE :: "expr list \<Rightarrow> expr" where
  "listE xs = ListE (ListExpr noComments xs False)"

definition attrE :: "string \<Rightarrow> expr \<Rightarrow> expr" where
  "attrE k v = BinaryE (BinaryExpr noComments (LiteralExpr noComments k) ''='' v)"

definition ruleE :: "string \<Rightarrow> expr list \<Rightarrow> expr" where
  "ruleE kind args = CallE (CallExpr noComments (LiteralExpr noComments kind) args)"

definition selectE :: "(string \<times> expr list) list \<Rightarrow> expr" where
  "selectE cases =
     CallE (CallExpr noComments (LiteralExpr noComments ''select'')
              [DictE (DictExpr noComments
                        (map (\<lambda>(k, vs). KeyValueExpr noComments (strE k) (listE vs)) cases) True)])"

definition plusE :: "expr list \<Rightarrow> expr \<Rightarrow> expr" where
  "plusE xs sel = BinaryE (BinaryExpr noComments (ListE (ListExpr noComments xs True)) ''+'' sel)"

definition parseTable :: "(string \<times> bzlFile) list \<Rightarrow> string \<Rightarrow> string \<Rightarrow> ioError + bzlFile" where
  "parseTable table path content =
     (case map_of table content of None \<Rightarrow> Inl (ParseError path) | Some f \<Rightarrow> Inr f)"

definition diskOf :: "(string \<times> string) list \<Rightarrow> world" where
  "diskOf table = \<lparr>files = map_of table, logged = []\<rparr>"

definition exampleDisk :: world where
  "exampleDisk = diskOf [(''BUILD'', ''old''), (''BUILD.merged'', ''merged'')]"

text \<open>
  A generated file with a load statement, a library with a list \<open>+\<close> select and a test; an
  existing file with kept elements, an unused symbol, a rule of its own and no test; and
  the result of merging the two.
\<close>

definition libraryGen :: bzlFile where
  "libraryGen =
     \<lparr>Path = ''BUILD'',
      Stmt =
        [ruleE ''load'' [strE ''@io_bazel_rules_go//go:def.bzl'', strE ''go_library'', strE ''go_test''],
         ruleE ''go_library''
           [attrE ''name'' (strE ''go_default_library''),
            attrE ''srcs''
              (plusE [strE ''a.go'', strE ''b.go'']
                 (selectE [(''@io_bazel_rules_go//go/platform:linux_amd64'', [strE ''a_linux.go'']),
                           (''//conditions:default'', [])])),
            attrE ''visibility'' (listE [strE ''//visibility:public'']),
            attrE ''deps'' (listE [strE ''//x''])],
         ruleE ''go_test''
           [attrE ''name'' (strE ''go_default_test''),
            attrE ''srcs'' (listE [strE ''a_test.go'']),
            attrE ''library'' (strE '':go_default_library'')]]\<rparr>"

definition libraryOld :: bzlFile where
  "libraryOld =
     \<lparr>Path = ''BUILD'',
      Stmt =
        [ruleE ''load'' [strE ''@io_bazel_rules_go//go:def.bzl'', strE ''go_binary'',
                         strE ''go_library'', strE ''cgo_library''],
         ruleE ''cgo_library'' [attrE ''name'' (strE ''cgo'')],
         ruleE ''go_library''
           [attrE ''name'' (strE ''go_default_library''),
            attrE ''deps'' (listE [strE ''//y'', keepE ''//z'']),
            attrE ''srcs'' (listE [strE ''a.go'', keepE ''gen.go'']),
            attrE ''tags'' (listE [strE ''manual''])]]\<rparr>"

definition libraryMerged :: bzlFile where
  "libraryMerged =
     \<lparr>Path = ''BUILD'',
      Stmt =
        [ruleE ''load'' [strE ''@io_bazel_rules_go//go:def.bzl'', strE ''cgo_library'',
                         strE ''go_library'', strE ''go_test''],
         ruleE ''cgo_library'' [attrE ''name'' (strE ''cgo'')],
         ruleE ''go_library''
           [attrE ''name'' (strE ''go_default_library''),
            attrE ''deps'' (listE [keepE ''//z'', strE ''//x'']),
            attrE ''srcs''
              (plusE [keepE ''gen.go'', strE ''a.go'', strE ''b.go'']
                 (selectE [(''@io_bazel_rules_go//go/platform:linux_amd64'', [strE ''a_linux.go'']),
                           (''//conditions:default'', [])])),
            attrE ''tags'' (listE [strE ''manual'']),
            attrE ''visibility'' (listE [strE ''//visibility:public''])],
         ruleE ''go_test''
           [attrE ''name'' (strE ''go_default_test''),
            attrE ''srcs'' (listE [strE ''a_test.go'']),
            attrE ''library'' (strE '':go_default_library'')]]\<rparr>"

definition libraryParse :: "string \<Rightarrow> string \<Rightarrow> ioError + bzlFile" where
  "libraryParse = parseTable [(''old'', libraryOld), (''merged'', libraryMerged)]"

text \<open>
  A generated rule with an empty \<open>srcs\<close> list, an existing rule without \<open>srcs\<close>, the result
  of the first merge and the result of merging again.
\<close>

definition emptySrcsGen :: bzlFile where
  "emptySrcsGen =
     \<lparr>Path = ''BUILD'',
      Stmt = [ruleE ''go_library''
                [attrE ''name'' (strE ''a''), attrE ''srcs'' (listE []),
                 attrE ''deps'' (listE [strE ''//x''])]]\<rparr>"

definition emptySrcsOld :: bzlFile where
  "emptySrcsOld = \<lparr>Path = ''BUILD'', Stmt = [ruleE ''go_library'' [attrE ''name'' (strE ''a'')]]\<rparr>"

definition emptySrcsMerged :: bzlFile where
  "emptySrcsMerged =
     \<lparr>Path = ''BUILD'',
      Stmt = [ruleE ''go_library''
                [attrE ''name'' (strE ''a''), attrE ''srcs'' (listE []),
                 attrE ''deps'' (listE [strE ''//x''])]]\<rparr>"

definition emptySrcsAgain :: bzlFile where
  "emptySrcsAgain =
     \<lparr>Path = ''BUILD'',
      Stmt = [ruleE ''go_library''
                [attrE ''name'' (strE ''a''), attrE ''deps'' (listE [strE ''//x'']),
                 attrE ''srcs'' (listE [])]]\<rparr>"

definition emptySrcsParse :: "string \<Rightarrow> string \<Rightarrow> ioError + bzlFile" where
  "emptySrcsParse = parseTable [(''old'', emptySrcsOld), (''merged'', emptySrcsMerged)]"

section \<open>What is kept of an attribute that is no longer generated\<close>







section \<open>More example inputs\<close>

text \<open>
  A generated select dictionary whose keys are not sorted and whose default case is in the
  middle.
\<close>

definition unsortedGenDict :: dict_expr where
  "unsortedGenDict =
     DictExpr noComments
       [KeyValueExpr noComments (StringExpr noComments ''b'')
          (ListE (ListExpr noComments [StringExpr noComments ''y''] False)),
        KeyValueExpr noComments (StringExpr noComments ''//conditions:default'')
          (ListE (ListExpr noComments [] False)),
        KeyValueExpr noComments (StringExpr noComments ''a'')
          (ListE (ListExpr noComments [StringExpr noComments ''x''] False))] False"







section \<open>Properties of the list merge\<close>

lemma keepOld_eq:
  "keepOld vs (merged, kept) =
     (merged @ filter shouldKeep vs, \<lambda>s. kept s \<or> s \<in> keptValues vs)"
proof (induction vs arbitrary: merged kept)
  case Nil
  show ?case by (simp add: keptValues_def)
next
  case (Cons v vs)
  show ?case by (auto simp: Cons.IH keptValues_def fun_eq_iff)
qed

lemma addGen_eq:
  "addGen vs kept merged = merged @ filter (\<lambda>v. \<not> kept (stringValue v)) vs"
  by (induction vs arbitrary: merged) auto

lemma mergeList_Some:
  "mergeList gen (Some oldl) =
     (let merged = filter shouldKeep (l_list oldl) @
                   filter (\<lambda>v. stringValue v \<notin> keptValues (l_list oldl)) (elems gen)
      in if merged = [] then None else Some (ListExpr noComments merged False))"
  by (cases gen) (simp_all add: mergeList_def keepOld_eq addGen_eq elems_def Let_def)

lemma mergeList_None [simp]: "mergeList gen None = gen"
  by (simp add: mergeList_def)

lemma elems_mergeList:
  "elems (mergeList gen old) =
     filter shouldKeep (elems old) @
     filter (\<lambda>v. stringValue v \<notin> keptValues (elems old)) (elems gen)"
proof (cases old)
  case None
  then show ?thesis by (simp add: elems_def keptValues_def)
next
  case (Some oldl)
  then show ?thesis by (simp add: mergeList_Some Let_def) (simp add: elems_def)
qed

lemma shouldKeep_keepComment [simp]: "shouldKeep (StringExpr keepComment s)"
  by (simp add: shouldKeep_def keepComment_def HasPrefix_def keep_def)

lemma shouldKeep_noComments [simp]: "\<not> shouldKeep (StringExpr noComments s)"
  by (simp add: shouldKeep_def noComments_def)

text \<open>
  C1, as the code has it. For every generated list and existing list (either may be nil),
  the elements of \<open>mergeList\<close>'s result are first the existing elements marked keep, in
  their order, then the generated elements, in their order, whose string value is not the
  non-empty string value of a kept element. The generated elements are compared with the
  kept values only. A kept element whose string value is empty (an empty string literal,
  or an expression that is no string literal) enters no comparison.
\<close>

theorem mergeList_kept_then_generated:
  "elems (mergeList gen old) =
     filter shouldKeep (elems old) @
     filter (\<lambda>v. stringValue v \<notin> keptValues (elems old)) (elems gen)"
  by (rule elems_mergeList)

text \<open>
  C1 as worded fails where a kept element and a generated element both have the empty
  string value: the code keeps the generated element, the wording drops it.
\<close>

theorem mergeList_empty_value_counterexample:
  "elems (mergeList (Some (ListExpr noComments [StringExpr noComments []] False))
                    (Some (ListExpr noComments [StringExpr keepComment []] False)))
     = [StringExpr keepComment [], StringExpr noComments []]
   \<and> mergeList_as_specified (Some (ListExpr noComments [StringExpr noComments []] False))
                             (Some (ListExpr noComments [StringExpr keepComment []] False))
     = [StringExpr keepComment []]"
  by (simp add: mergeList_Some elems_def keptValues_def mergeList_as_specified_def)

text \<open>
  The scenario of the specification: existing \<open>["//a:a", "//b:b" # keep]\<close>, generated
  \<open>["//a:a", "//c:c"]\<close>, merged \<open>["//b:b", "//a:a", "//c:c"]\<close>.
\<close>

lemma mergeList_scenario:
  "mergeList (Some (ListExpr noComments
                      [StringExpr noComments ''//a:a'', StringExpr noComments ''//c:c''] False))
             (Some (ListExpr noComments
                      [StringExpr noComments ''//a:a'', StringExpr keepComment ''//b:b''] False))
     = Some (ListExpr noComments
               [StringExpr keepComment ''//b:b'', StringExpr noComments ''//a:a'',
                StringExpr noComments ''//c:c''] False)"
  by (simp add: mergeList_Some elems_def keptValues_def)

text \<open>
  C5, as the code has it. When the existing list is present, a merge without elements
  gives nil, never an empty list expression. When the existing list is nil the generated
  list is returned as it is, an empty list expression included.
\<close>

theorem mergeList_empty_is_nil:
  "(elems (mergeList gen (Some oldl)) = [] \<longrightarrow> mergeList gen (Some oldl) = None)
   \<and> mergeList gen None = gen"
  by (simp add: mergeList_Some Let_def elems_def)

theorem mergeList_empty_is_nil_witness:
  "elems (mergeList (Some (ListExpr noComments [] False))
                    (Some (ListExpr noComments [StringExpr noComments ''x''] False))) = []
   \<and> mergeList (Some (ListExpr noComments [] False))
                (Some (ListExpr noComments [StringExpr noComments ''x''] False)) = None"
  using mergeList_empty_is_nil
    [of "Some (ListExpr noComments [] False)" "ListExpr noComments [StringExpr noComments ''x''] False"]
  by (simp add: mergeList_Some elems_def keptValues_def)

text \<open>
  C5 as worded fails for a nil existing list and an empty generated list: the result has
  no elements and is not nil.
\<close>

theorem mergeList_empty_generated_counterexample:
  "elems (mergeList (Some (ListExpr noComments [] False)) None) = []
   \<and> mergeList (Some (ListExpr noComments [] False)) None \<noteq> None"
  by (simp add: elems_def)

section \<open>Properties of the expression merge\<close>

text \<open>
  C7. For every call of \<open>mergeExpr\<close> with a generated string literal and an existing
  expression: the existing expression is returned unchanged when it carries the keep
  marker, and the generated one otherwise. So a string marked keep is never replaced by a
  generated value.
\<close>

theorem mergeExpr_string_keep:
  "mergeExpr (Some (StringExpr c s)) (Some oldE) =
     Inr (Some (if shouldKeep oldE then oldE else StringExpr c s))"
  by (simp add: mergeExpr_def isStringExpr_def)

section \<open>Properties of the dictionary merge\<close>

lemma entryMap_Nil [simp]: "entryMap [] k = None"
  by (simp add: entryMap_def)

lemma entryMap_Cons [simp]:
  "entryMap (e # es) k = (if key e = k then Some e else entryMap es k)"
  by (simp add: entryMap_def)

lemma entryMap_append:
  "entryMap (es @ fs) k = (case entryMap es k of None \<Rightarrow> entryMap fs k | Some e \<Rightarrow> Some e)"
  by (induction es) auto

lemma entryMap_None_iff: "entryMap es k = None \<longleftrightarrow> k \<notin> key ` set es"
  by (induction es) auto

lemma entryMap_Some_key: "entryMap es k = Some e \<Longrightarrow> key e = k \<and> e \<in> set es"
  by (induction es) (auto split: if_splits)

lemma oldEntries_eq:
  "oldEntries kvs es = Inr es' \<Longrightarrow> es' = es @ map oldEntry (dictPairs kvs)"
proof (induction kvs arbitrary: es)
  case Nil
  then show ?case by simp
next
  case (Cons kv kvs)
  from Cons.prems obtain k v where kv: "dictEntryKeyValue kv = Inr (k, v)"
    and rest: "oldEntries kvs (es @ [\<lparr>key = k, oldValue = Some v, genValue = None, mergedValue = None\<rparr>]) = Inr es'"
    by (auto split: sum.splits option.splits)
  from Cons.IH[OF rest] kv show ?case by (simp add: oldEntry_def)
qed

lemma oldEntries_distinct:
  "oldEntries kvs es = Inr es' \<Longrightarrow> distinct (map key es) \<Longrightarrow> distinct (map key es')"
proof (induction kvs arbitrary: es)
  case Nil
  then show ?case by simp
next
  case (Cons kv kvs)
  from Cons.prems(1) obtain k v where kv: "dictEntryKeyValue kv = Inr (k, v)"
    and nk: "entryMap es k = None"
    and rest: "oldEntries kvs (es @ [\<lparr>key = k, oldValue = Some v, genValue = None, mergedValue = None\<rparr>]) = Inr es'"
    by (auto split: sum.splits option.splits)
  have "distinct (map key (es @ [\<lparr>key = k, oldValue = Some v, genValue = None, mergedValue = None\<rparr>]))"
    using Cons.prems(2) nk by (simp add: entryMap_None_iff)
  from Cons.IH[OF rest this] show ?case .
qed

lemma genEntries_Cons:
  "dictEntryKeyValue kv = Inr p \<Longrightarrow> genEntries (kv # kvs) es = genEntries kvs (addGenPair es p)"
  by (cases p) (auto split: option.splits)

lemma genEntries_eq:
  "genEntries kvs es = Inr es' \<Longrightarrow> es' = foldl addGenPair es (dictPairs kvs)"
proof (induction kvs arbitrary: es)
  case Nil
  then show ?case by simp
next
  case (Cons kv kvs)
  from Cons.prems obtain p where kv: "dictEntryKeyValue kv = Inr p"
    by (auto split: sum.splits)
  with Cons.prems have "genEntries kvs (addGenPair es p) = Inr es'"
    by (simp only: genEntries_Cons)
  from Cons.IH[OF this] kv show ?case by simp
qed

lemma map_key_upd:
  "map key (map (\<lambda>e. if key e = k then e\<lparr>genValue := v\<rparr> else e) es) = map key es"
  by (induction es) auto

lemma entryMap_upd:
  "entryMap (map (\<lambda>e. if key e = k then e\<lparr>genValue := v\<rparr> else e) es) k' =
     map_option (\<lambda>e. if k' = k then e\<lparr>genValue := v\<rparr> else e) (entryMap es k')"
  by (induction es) auto

lemma map_key_addGenPair:
  "map key (addGenPair es (k, v)) = (if k \<in> key ` set es then map key es else map key es @ [k])"
proof (cases "entryMap es k")
  case None
  then show ?thesis using entryMap_None_iff[of es k] by simp
next
  case (Some e)
  then show ?thesis using entryMap_None_iff[of es k] by (simp add: map_key_upd del: map_map)
qed

lemma keys_addGenPair: "key ` set (addGenPair es p) = insert (fst p) (key ` set es)"
proof (cases p)
  case (Pair k v)
  have "set (map key (addGenPair es (k, v))) = insert k (key ` set es)"
    unfolding map_key_addGenPair by auto
  then show ?thesis using Pair by simp
qed

lemma distinct_addGenPair: "distinct (map key es) \<Longrightarrow> distinct (map key (addGenPair es p))"
  by (cases p) (simp add: map_key_addGenPair del: addGenPair.simps)

lemma genOf_addGenPair: "genOf (addGenPair es p) k = (if k = fst p then Some (snd p) else genOf es k)"
  by (cases p; cases "entryMap es (fst p)")
     (auto simp: genOf_def entryMap_append entryMap_upd split: option.splits)

lemma oldOf_addGenPair: "oldOf (addGenPair es p) k = oldOf es k"
  by (cases p; cases "entryMap es (fst p)")
     (auto simp: oldOf_def entryMap_append entryMap_upd split: option.splits)

lemma keys_foldl: "key ` set (foldl addGenPair es ps) = key ` set es \<union> fst ` set ps"
  by (induction ps arbitrary: es) (auto simp: keys_addGenPair)

lemma distinct_foldl: "distinct (map key es) \<Longrightarrow> distinct (map key (foldl addGenPair es ps))"
  by (induction ps arbitrary: es) (auto simp: distinct_addGenPair)

lemma oldOf_foldl: "oldOf (foldl addGenPair es ps) k = oldOf es k"
  by (induction ps arbitrary: es) (auto simp: oldOf_addGenPair)

lemma genOf_foldl:
  "genOf (foldl addGenPair es ps) k =
     (case map_of (rev ps) k of Some v \<Rightarrow> Some v | None \<Rightarrow> genOf es k)"
  by (induction ps arbitrary: es) (auto simp: genOf_addGenPair map_add_def split: option.splits)

lemma entryMap_oldEntry: "entryMap (map oldEntry ps) k = map_option (\<lambda>v. oldEntry (k, v)) (map_of ps k)"
  by (induction ps) (auto simp: oldEntry_def)

lemma oldOf_oldEntries: "oldOf (map oldEntry ps) k = map_of ps k"
  by (cases "map_of ps k") (simp_all add: oldOf_def entryMap_oldEntry oldEntry_def)

lemma genOf_oldEntries: "genOf (map oldEntry ps) k = None"
  by (cases "map_of ps k") (simp_all add: genOf_def entryMap_oldEntry oldEntry_def)

lemma map_of_rev_distinct: "distinct (map fst ps) \<Longrightarrow> map_of (rev ps) = map_of ps"
  by (rule map_of_inject_set[THEN iffD2]) (simp_all add: rev_map[symmetric])

lemma mergeEntries_eq:
  "mergeEntries es (seen, keys, hasD) =
     (seen @ map mergeEntry es,
      keys @ map key (filter (\<lambda>e. key e \<noteq> defaultKey \<and> mergeList (genValue e) (oldValue e) \<noteq> None) es),
      hasD \<or> defaultKey \<in> key ` set es)"
  by (induction es arbitrary: seen keys hasD) (auto simp: mergeEntry_def Let_def)

lemma mergedEntries_eq:
  "\<forall>k\<in>set ks. mergedValueOf entries k \<noteq> None \<Longrightarrow>
   mergedEntries entries ks =
     Inr (map (\<lambda>k. KeyValueExpr noComments (StringExpr noComments k)
                     (ListE (the (mergedValueOf entries k)))) ks)"
  by (induction ks) auto

lemma entryMap_mergeEntry: "entryMap (map mergeEntry es) k = map_option mergeEntry (entryMap es k)"
  by (induction es) (auto simp: mergeEntry_def Let_def)


declare addGenPair.simps [simp del]

lemma key_comp_oldEntry [simp]: "key \<circ> oldEntry = fst"
  by (auto simp: oldEntry_def fun_eq_iff)

lemma map_key_oldEntry: "map key (map oldEntry ps) = map fst ps"
  by simp

lemma oldEntries_pairs_distinct:
  assumes "oldEntries kvs [] = Inr es"
  shows "distinct (map fst (dictPairs kvs))"
proof -
  have "distinct (map key es)" using oldEntries_distinct[OF assms] by simp
  moreover have "es = map oldEntry (dictPairs kvs)" using oldEntries_eq[OF assms] by simp
  ultimately show ?thesis by simp
qed

lemma finalEntries_keys:
  "key ` set (finalEntries gen oldd) = caseKeys gen \<union> caseKeys (Some oldd)"
proof -
  have "key ` set (map oldEntry ps) = fst ` set ps" for ps
    using map_key_oldEntry[of ps] by (metis list.set_map)
  then show ?thesis
    by (cases gen) (auto simp: finalEntries_def keys_foldl caseKeys_def dictList_def)
qed

lemma finalEntries_distinct:
  "distinct (map fst (dictPairs (d_list oldd))) \<Longrightarrow> distinct (map key (finalEntries gen oldd))"
  unfolding finalEntries_def by (rule distinct_foldl) simp

lemma finalEntries_oldOf:
  "distinct (map fst (dictPairs (d_list oldd))) \<Longrightarrow>
   oldOf (finalEntries gen oldd) k = caseValue (Some oldd) k"
  by (simp add: finalEntries_def oldOf_foldl oldOf_oldEntries caseValue_def map_of_rev_distinct)

lemma finalEntries_genOf:
  "genOf (finalEntries gen oldd) k = caseValue gen k"
  by (cases gen)
     (auto simp: finalEntries_def genOf_foldl genOf_oldEntries caseValue_def dictList_def
           split: option.splits)

lemma entryMap_distinct_mem:
  "distinct (map key es) \<Longrightarrow> e \<in> set es \<Longrightarrow> entryMap es (key e) = Some e"
  by (induction es) (auto simp: rev_image_eqI)

lemma finalEntries_entry:
  assumes d: "distinct (map fst (dictPairs (d_list oldd)))" and e: "e \<in> set (finalEntries gen oldd)"
  shows "oldValue e = caseValue (Some oldd) (key e)" "genValue e = caseValue gen (key e)"
proof -
  have m: "entryMap (finalEntries gen oldd) (key e) = Some e"
    using entryMap_distinct_mem[OF finalEntries_distinct[OF d] e] .
  show "oldValue e = caseValue (Some oldd) (key e)"
    using finalEntries_oldOf[OF d, of gen "key e"] m by (simp add: oldOf_def)
  show "genValue e = caseValue gen (key e)"
    using finalEntries_genOf[of gen oldd "key e"] m by (simp add: genOf_def)
qed

lemma finalEntries_merge:
  assumes d: "distinct (map fst (dictPairs (d_list oldd)))" and e: "e \<in> set (finalEntries gen oldd)"
  shows "mergeList (genValue e) (oldValue e) = mergedCase gen (Some oldd) (key e)"
  using finalEntries_entry[OF d e] by (simp add: mergedCase_def)

lemma liveKeys_eq:
  assumes d: "distinct (map fst (dictPairs (d_list oldd)))"
  shows "map key (filter (\<lambda>e. key e \<noteq> defaultKey \<and> mergeList (genValue e) (oldValue e) \<noteq> None)
                    (finalEntries gen oldd)) = liveKeys gen oldd"
proof -
  have "filter (\<lambda>e. key e \<noteq> defaultKey \<and> mergeList (genValue e) (oldValue e) \<noteq> None)
          (finalEntries gen oldd) =
        filter (\<lambda>e. key e \<noteq> defaultKey \<and> mergedCase gen (Some oldd) (key e) \<noteq> None)
          (finalEntries gen oldd)"
    by (rule filter_cong) (auto simp: finalEntries_merge[OF d])
  then show ?thesis by (simp add: liveKeys_def filter_map comp_def)
qed

lemma mergedValueOf_final:
  assumes d: "distinct (map fst (dictPairs (d_list oldd)))"
    and k: "k \<in> key ` set (finalEntries gen oldd)"
  shows "mergedValueOf (map mergeEntry (finalEntries gen oldd)) k =
           (if k = defaultKey then Some (coerced (mergedCase gen (Some oldd) k))
            else mergedCase gen (Some oldd) k)"
proof -
  from k obtain e where e: "e \<in> set (finalEntries gen oldd)" and ke: "key e = k" by auto
  have m: "entryMap (finalEntries gen oldd) k = Some e"
    using entryMap_distinct_mem[OF finalEntries_distinct[OF d] e] ke by simp
  show ?thesis
    using finalEntries_merge[OF d e] ke
    by (auto simp: mergedValueOf_def entryMap_mergeEntry m mergeEntry_def Let_def coerced_def
             split: option.splits)
qed

lemma d_list_gend:
  "d_list (case gen of None \<Rightarrow> DictExpr noComments [] False | Some g \<Rightarrow> g) = dictList gen"
  by (cases gen) (simp_all add: dictList_def)

lemma mergeDict_Some_Inr:
  assumes o: "oldEntries (d_list oldd) [] = Inr es1"
    and g: "genEntries (dictList gen) es1 = Inr es2"
  shows "mergeDict gen (Some oldd) = Inr (mergedDictOf gen oldd)"
proof -
  have d: "distinct (map fst (dictPairs (d_list oldd)))"
    using oldEntries_pairs_distinct[OF o] .
  have es1: "es1 = map oldEntry (dictPairs (d_list oldd))"
    using oldEntries_eq[OF o] by simp
  have es2: "es2 = finalEntries gen oldd"
    using genEntries_eq[OF g] es1 by (simp add: finalEntries_def)
  let ?entries = "map mergeEntry es2"
  let ?keys = "liveKeys gen oldd"
  let ?hd = "hasDefault gen (Some oldd)"
  have me: "mergeEntries es2 ([], [], False) = (?entries, ?keys, ?hd)"
    using liveKeys_eq[OF d, of gen] finalEntries_keys[of gen oldd]
    by (simp add: mergeEntries_eq es2 hasDefault_def)
  have keysub: "set ?keys \<subseteq> key ` set es2"
    by (auto simp: liveKeys_def es2)
  have live: "k \<in> set ?keys \<Longrightarrow> k \<noteq> defaultKey \<and> mergedCase gen (Some oldd) k \<noteq> None" for k
    by (auto simp: liveKeys_def)
  have hdin: "?hd \<Longrightarrow> defaultKey \<in> key ` set es2"
    using finalEntries_keys[of gen oldd] by (simp add: hasDefault_def es2)
  have mv: "k \<in> key ` set es2 \<Longrightarrow> mergedValueOf ?entries k =
           (if k = defaultKey then Some (coerced (mergedCase gen (Some oldd) k))
            else mergedCase gen (Some oldd) k)" for k
    using mergedValueOf_final[OF d, of k gen] by (simp add: es2)
  have mvlive: "k \<in> set ?keys \<Longrightarrow> mergedValueOf ?entries k = Some (mergedOut gen (Some oldd) k)" for k
    using mv[of k] keysub live[of k] by (auto simp: mergedOut_def)
  have mvdef: "?hd \<Longrightarrow> mergedValueOf ?entries defaultKey = Some (mergedOut gen (Some oldd) defaultKey)"
    using mv[of defaultKey] hdin by (simp add: mergedOut_def)
  let ?ks = "sort ?keys @ (if ?hd then [defaultKey] else [])"
  have all: "\<forall>k\<in>set ?ks. mergedValueOf ?entries k = Some (mergedOut gen (Some oldd) k)"
    using mvlive mvdef by auto
  then have "\<forall>k\<in>set ?ks. mergedValueOf ?entries k \<noteq> None" by simp
  from mergedEntries_eq[OF this]
  have "mergedEntries ?entries ?ks =
          Inr (map (\<lambda>k. KeyValueExpr noComments (StringExpr noComments k)
                          (ListE (the (mergedValueOf ?entries k)))) ?ks)" .
  also have "map (\<lambda>k. KeyValueExpr noComments (StringExpr noComments k)
                          (ListE (the (mergedValueOf ?entries k)))) ?ks
             = map (keyValue gen (Some oldd)) ?ks"
    by (rule map_cong) (use all in \<open>auto simp: keyValue_def\<close>)
  finally have mes: "mergedEntries ?entries ?ks = Inr (map (keyValue gen (Some oldd)) ?ks)" .
  have el: "?hd \<Longrightarrow> elems (mergedValueOf ?entries defaultKey) =
              l_list (coerced (mergedCase gen (Some oldd) defaultKey))"
    using mvdef by (simp add: elems_def mergedOut_def)
  show ?thesis
    unfolding mergeDict_def
    using o g me mes el
    by (auto simp: d_list_gend mergedDictOf_def Let_def)
qed

lemma mergeDict_Some_Inr_iff:
  assumes "mergeDict gen (Some oldd) = Inr r"
  shows "r = mergedDictOf gen oldd \<and> distinct (map fst (dictPairs (d_list oldd)))"
proof -
  from assms obtain es1 where o: "oldEntries (d_list oldd) [] = Inr es1"
    by (auto simp: mergeDict_def Let_def split: sum.splits)
  with assms obtain es2 where g: "genEntries (dictList gen) es1 = Inr es2"
    by (auto simp: mergeDict_def Let_def d_list_gend split: sum.splits)
  show ?thesis
    using mergeDict_Some_Inr[OF o g] assms oldEntries_pairs_distinct[OF o] by simp
qed


lemma dictPairs_keyValue:
  "dictPairs (map (keyValue gen old) ks) = map (\<lambda>k. (k, mergedOut gen old k)) ks"
  by (induction ks) (auto simp: keyValue_def)

lemma entryKey_keyValue: "map entryKey (map (keyValue gen old) ks) = ks"
  by (induction ks) (auto simp: keyValue_def entryKey_def)

lemma caseValue_None_iff: "caseValue d k = None \<longleftrightarrow> k \<notin> caseKeys d"
  by (cases d) (auto simp: caseValue_def caseKeys_def map_of_eq_None_iff)

lemma set_liveKeys:
  "set (liveKeys gen oldd) = {k. k \<noteq> defaultKey \<and> mergedCase gen (Some oldd) k \<noteq> None}"
proof -
  have "mergedCase gen (Some oldd) k \<noteq> None \<Longrightarrow> k \<in> key ` set (finalEntries gen oldd)" for k
  proof (rule ccontr)
    assume a: "mergedCase gen (Some oldd) k \<noteq> None" and "k \<notin> key ` set (finalEntries gen oldd)"
    then have "k \<notin> caseKeys gen" "k \<notin> caseKeys (Some oldd)"
      by (simp_all add: finalEntries_keys)
    then have "caseValue gen k = None" "caseValue (Some oldd) k = None"
      by (simp_all add: caseValue_None_iff)
    with a show False by (simp add: mergedCase_def)
  qed
  then show ?thesis by (auto simp: liveKeys_def)
qed

lemma distinct_liveKeys:
  "distinct (map fst (dictPairs (d_list oldd))) \<Longrightarrow> distinct (liveKeys gen oldd)"
  unfolding liveKeys_def by (rule distinct_filter) (rule finalEntries_distinct)

lemma default_notin_liveKeys: "defaultKey \<notin> set (liveKeys gen oldd)"
  by (simp add: liveKeys_def)

lemma mergeDict_present_shape:
  assumes "mergeDict gen (Some oldd) = Inr r"
  shows "(r = None) =
           ((\<forall>k. k \<noteq> defaultKey \<longrightarrow> mergedCase gen (Some oldd) k = None) \<and>
            (\<not> hasDefault gen (Some oldd) \<or> elems (mergedCase gen (Some oldd) defaultKey) = []))
         \<and> (\<forall>d. r = Some d \<longrightarrow>
              (\<exists>ks. map entryKey (d_list d) =
                       ks @ (if hasDefault gen (Some oldd) then [defaultKey] else [])
                    \<and> sorted_wrt (<) ks
                    \<and> set ks = {k. k \<noteq> defaultKey \<and> mergedCase gen (Some oldd) k \<noteq> None})
              \<and> (hasDefault gen (Some oldd) \<longrightarrow>
                   caseValue (Some d) defaultKey =
                     Some (case mergedCase gen (Some oldd) defaultKey of
                             None \<Rightarrow> ListExpr noComments [] False | Some l \<Rightarrow> l)))"
proof -
  from mergeDict_Some_Inr_iff[OF assms]
  have r: "r = mergedDictOf gen oldd" and d: "distinct (map fst (dictPairs (d_list oldd)))"
    by simp_all
  let ?live = "liveKeys gen oldd"
  let ?hd = "hasDefault gen (Some oldd)"
  have nil: "(?live = []) = (\<forall>k. k \<noteq> defaultKey \<longrightarrow> mergedCase gen (Some oldd) k = None)"
    using set_liveKeys[of gen oldd] by (auto simp flip: set_empty)
  have co: "l_list (coerced m) = elems m" for m
    by (cases m) (simp_all add: coerced_def elems_def)
  have part1: "(r = None) =
           ((\<forall>k. k \<noteq> defaultKey \<longrightarrow> mergedCase gen (Some oldd) k = None) \<and>
            (\<not> ?hd \<or> elems (mergedCase gen (Some oldd) defaultKey) = []))"
    unfolding r mergedDictOf_def nil co by simp
  have sorted: "sorted_wrt (<) (sort ?live)"
    using distinct_liveKeys[OF d, of gen] by (simp add: strict_sorted_iff)
  have part2: "\<exists>ks. map entryKey (d_list dd) = ks @ (if ?hd then [defaultKey] else [])
                    \<and> sorted_wrt (<) ks
                    \<and> set ks = {k. k \<noteq> defaultKey \<and> mergedCase gen (Some oldd) k \<noteq> None}"
    if "r = Some dd" for dd
  proof -
    from that have "d_list dd = map (keyValue gen (Some oldd)) (sort ?live @ (if ?hd then [defaultKey] else []))"
      unfolding r mergedDictOf_def by (auto split: if_splits)
    then have "map entryKey (d_list dd) = sort ?live @ (if ?hd then [defaultKey] else [])"
      by (simp only: entryKey_keyValue)
    with sorted set_liveKeys[of gen oldd] show ?thesis by auto
  qed
  have part3: "caseValue (Some dd) defaultKey =
                 Some (case mergedCase gen (Some oldd) defaultKey of
                         None \<Rightarrow> ListExpr noComments [] False | Some l \<Rightarrow> l)"
    if "r = Some dd" and hd: "?hd" for dd
  proof -
    from that have dl: "d_list dd = map (keyValue gen (Some oldd)) (sort ?live @ [defaultKey])"
      unfolding r mergedDictOf_def by (auto split: if_splits)
    have "map_of (rev (map (\<lambda>k. (k, mergedOut gen (Some oldd) k)) (sort ?live @ [defaultKey]))) defaultKey
            = Some (mergedOut gen (Some oldd) defaultKey)"
      by simp
    then show ?thesis
      by (simp add: caseValue_def dl dictPairs_keyValue mergedOut_def coerced_def del: map_append rev_append)
  qed
  show ?thesis using part1 part2 part3 by blast
qed

text \<open>
  C2. Let \<open>mergeDict\<close> accept a generated and an existing dictionary, each possibly nil.
  When the existing dictionary is nil the result is the generated dictionary as it is.
  When the existing dictionary is present, the result is nil exactly when no key other
  than the default has a merged value that is not nil and there is no default case or its
  merged list is empty. Otherwise the keys of the result are the non-default keys with a
  merged value that is not nil, in strictly ascending order, followed by
  \<open>//conditions:default\<close> when either input has that case; so the default is retained and
  is last. Its value is its merged list, or the empty list when that is nil.
\<close>

theorem mergeDict_default_last_sorted:
  assumes "mergeDict gen old = Inr r"
  shows "(old = None \<longrightarrow> r = gen) \<and>
         (old \<noteq> None \<longrightarrow>
            (r = None) =
              ((\<forall>k. k \<noteq> defaultKey \<longrightarrow> mergedCase gen old k = None) \<and>
               (\<not> hasDefault gen old \<or> elems (mergedCase gen old defaultKey) = []))
            \<and> (\<forall>d. r = Some d \<longrightarrow>
                 (\<exists>ks. map entryKey (d_list d) =
                          ks @ (if hasDefault gen old then [defaultKey] else [])
                       \<and> sorted_wrt (<) ks
                       \<and> set ks = {k. k \<noteq> defaultKey \<and> mergedCase gen old k \<noteq> None})
                 \<and> (hasDefault gen old \<longrightarrow>
                      caseValue (Some d) defaultKey =
                        Some (case mergedCase gen old defaultKey of
                                None \<Rightarrow> ListExpr noComments [] False | Some l \<Rightarrow> l))))"
proof (cases old)
  case None
  with assms show ?thesis by (simp add: mergeDict_def)
next
  case (Some oldd)
  with assms have "mergeDict gen (Some oldd) = Inr r" by simp
  from mergeDict_present_shape[OF this] Some show ?thesis by simp
qed

theorem mergeDict_default_last_sorted_witness:
  "mergeDict (Some exampleGenDict) (Some exampleOldDict) = Inr (Some exampleMergedDict)
   \<and> (\<exists>ks. map entryKey (d_list exampleMergedDict) = ks @ [defaultKey] \<and> sorted_wrt (<) ks)
   \<and> caseValue (Some exampleMergedDict) defaultKey = Some (ListExpr noComments [] False)"
proof -
  have m: "mergeDict (Some exampleGenDict) (Some exampleOldDict) = Inr (Some exampleMergedDict)"
    by code_simp
  have h: "hasDefault (Some exampleGenDict) (Some exampleOldDict)"
    by (simp add: hasDefault_def caseKeys_def exampleOldDict_def defaultKey_def)
  have c: "mergedCase (Some exampleGenDict) (Some exampleOldDict) defaultKey = None"
    by (simp add: mergedCase_def caseValue_def exampleOldDict_def exampleGenDict_def
          defaultKey_def mergeList_Some elems_def)
  from mergeDict_default_last_sorted[OF m] h c m show ?thesis by auto
qed

text \<open>
  With a nil existing dictionary the generated one comes back unsorted, its default case
  where it was.
\<close>

theorem mergeDict_nil_existing_counterexample:
  "mergeDict (Some unsortedGenDict) None = Inr (Some unsortedGenDict) \<and>
   hasDefault (Some unsortedGenDict) None \<and>
   map entryKey (d_list unsortedGenDict) = [''b'', defaultKey, ''a''] \<and>
   \<not> (\<exists>ks. map entryKey (d_list unsortedGenDict) = ks @ [defaultKey])"
proof -
  have k: "map entryKey (d_list unsortedGenDict) = [''b'', defaultKey, ''a'']"
    by (simp add: unsortedGenDict_def entryKey_def defaultKey_def)
  have h: "hasDefault (Some unsortedGenDict) None"
    by (simp add: hasDefault_def caseKeys_def unsortedGenDict_def defaultKey_def)
  have "\<not> (\<exists>ks. [''b'', defaultKey, ''a''] = ks @ [defaultKey])"
  proof
    assume "\<exists>ks. [''b'', defaultKey, ''a''] = ks @ [defaultKey]"
    then obtain ks where "[''b'', defaultKey, ''a''] = ks @ [defaultKey]" by blast
    then have "last [''b'', defaultKey, ''a''] = last (ks @ [defaultKey])" by simp
    then show False by (simp add: defaultKey_def)
  qed
  with k h show ?thesis by (simp add: mergeDict_def)
qed

section \<open>Properties of the rule merge\<close>

lemma dictEntryKeyValue_no_panic: "dictEntryKeyValue e = Inl err \<Longrightarrow> \<not> isPanic err"
  by (cases e) (auto simp: isPanic_def split: expr.splits)

lemma oldEntries_no_panic: "oldEntries kvs es = Inl err \<Longrightarrow> \<not> isPanic err"
proof (induction kvs arbitrary: es)
  case Nil
  then show ?case by simp
next
  case (Cons kv kvs)
  then show ?case
    by (auto simp: isPanic_def split: sum.splits option.splits dest: dictEntryKeyValue_no_panic)
qed

lemma genEntries_no_panic: "genEntries kvs es = Inl err \<Longrightarrow> \<not> isPanic err"
proof (induction kvs arbitrary: es)
  case Nil
  then show ?case by simp
next
  case (Cons kv kvs)
  then show ?case
    by (auto simp: isPanic_def split: sum.splits option.splits dest: dictEntryKeyValue_no_panic)
qed

lemma mergeDict_no_panic: "mergeDict gen old = Inl err \<Longrightarrow> \<not> isPanic err"
proof (cases old)
  case None
  assume "mergeDict gen old = Inl err"
  with None show ?thesis by (simp add: mergeDict_def)
next
  case (Some oldd)
  assume a: "mergeDict gen old = Inl err"
  show ?thesis
  proof (cases "oldEntries (d_list oldd) []")
    case (Inl e1)
    with a Some have "err = e1" by (simp add: mergeDict_def Let_def)
    with Inl show ?thesis by (simp add: oldEntries_no_panic)
  next
    case (Inr es1)
    show ?thesis
    proof (cases "genEntries (dictList gen) es1")
      case (Inl e2)
      with a Some Inr have "err = e2" by (simp add: mergeDict_def Let_def d_list_gend)
      with Inl show ?thesis by (simp add: genEntries_no_panic)
    next
      case (Inr es2)
      from mergeDict_Some_Inr[OF \<open>oldEntries (d_list oldd) [] = Inr es1\<close> Inr] a Some
      show ?thesis by simp
    qed
  qed
qed

lemma exprListAndDict_no_panic: "exprListAndDict e = Inl err \<Longrightarrow> \<not> isPanic err"
  by (cases e rule: exprListAndDict.cases)
     (auto simp: isPanic_def split: if_splits expr.splits)

lemma mergeExpr_no_panic: "mergeExpr gen (Some oldE) = Inl err \<Longrightarrow> \<not> isPanic err"
  by (auto simp: mergeExpr_def Let_def split: if_splits sum.splits prod.splits option.splits
           dest: exprListAndDict_no_panic mergeDict_no_panic)


lemma findAttr_Some_attrKey: "findAttr as k = Some b \<Longrightarrow> attrKey (BinaryE b) = Some k \<and> BinaryE b \<in> set as"
  by (induction as) (auto split: if_splits expr.splits)

lemma findAttr_None_iff: "findAttr as k = None \<longleftrightarrow> k \<notin> set (List.map_filter attrKey as)"
proof (induction as)
  case Nil
  show ?case by (simp add: List.map_filter_simps)
next
  case (Cons a as)
  show ?case
  proof (cases "attrKey a")
    case None
    with Cons show ?thesis by (simp add: List.map_filter_simps)
  next
    case (Some k')
    then obtain b where "a = BinaryE b" by (auto simp: attrKey_def split: expr.splits)
    with Cons Some show ?thesis by (auto simp: List.map_filter_simps)
  qed
qed

lemma AttrDefn_None_iff: "AttrDefn c k = None \<longleftrightarrow> k \<notin> set (AttrKeys c)"
  by (simp add: AttrDefn_def AttrKeys_def findAttr_None_iff)

lemma Attr_None_iff: "Attr c k = None \<longleftrightarrow> k \<notin> set (AttrKeys c)"
  by (simp add: Attr_def AttrDefn_None_iff)

lemma mergeOldAttrs_eq:
  "set ks \<subseteq> set (AttrKeys old) \<Longrightarrow>
   mergeOldAttrs gen old ks merged = Inr (merged @ concat (map (mergedAttr gen old) ks))"
proof (induction ks arbitrary: merged)
  case Nil
  show ?case by simp
next
  case (Cons k ks)
  then obtain oldAttr where d: "AttrDefn old k = Some oldAttr"
    using AttrDefn_None_iff[of old k] by auto
  have ks: "set ks \<subseteq> set (AttrKeys old)" using Cons.prems by simp
  show ?case
  proof (cases "mergeableFields k")
    case False
    with d show ?thesis by (simp add: Cons.IH[OF ks] mergedAttr_def)
  next
    case True
    show ?thesis
    proof (cases "mergeExpr (Attr gen k) (Some (b_y oldAttr))")
      case (Inl err)
      then have "\<not> isPanic err" by (rule mergeExpr_no_panic)
      with Inl d True show ?thesis
        by (cases err; cases "Attr gen k")
           (simp_all add: Cons.IH[OF ks] mergedAttr_def mergedValueFor_def isPanic_def)
    next
      case (Inr m)
      with d True show ?thesis
        by (cases m) (simp_all add: Cons.IH[OF ks] mergedAttr_def mergedValueFor_def)
    qed
  qed
qed


lemma attrKey_newAttr [simp]: "attrKey (newAttr gen k) = Some k"
  by (simp add: newAttr_def attrKey_def)

lemma map_filter_append: "List.map_filter f (xs @ ys) = List.map_filter f xs @ List.map_filter f ys"
  by (simp add: List.map_filter_def)

lemma attrKey_Some_Binary: "attrKey a = Some k \<Longrightarrow> \<exists>b. a = BinaryE b"
  by (auto simp: attrKey_def split: expr.splits)

lemma setAttr_absent:
  "findAttr as k = None \<Longrightarrow>
   setAttr as k v = as @ [BinaryE (BinaryExpr noComments (LiteralExpr noComments k) ''='' v)]"
proof (induction as)
  case Nil
  show ?case by simp
next
  case (Cons a as)
  show ?case
  proof (cases "attrKey a = Some k")
    case True
    then obtain b where "a = BinaryE b" using attrKey_Some_Binary by blast
    with True Cons.prems show ?thesis by simp
  next
    case False
    with Cons show ?thesis by simp
  qed
qed

lemma addGenAttrs_eq:
  "set ks \<subseteq> set (AttrKeys gen) \<Longrightarrow>
   addGenAttrs gen ks merged =
     Inr (CallExpr (c_comments merged) (c_x merged)
            (c_list merged @ newAttrs gen ks (AttrKeys merged)))"
proof (induction ks arbitrary: merged)
  case Nil
  show ?case by simp
next
  case (Cons k ks)
  have ks: "set ks \<subseteq> set (AttrKeys gen)" using Cons.prems by simp
  show ?case
  proof (cases "k \<in> set (AttrKeys merged)")
    case True
    then obtain y where "Attr merged k = Some y"
      using Attr_None_iff[of merged k] by auto
    with True show ?thesis by (simp add: Cons.IH[OF ks])
  next
    case False
    then have n: "Attr merged k = None" by (simp add: Attr_None_iff)
    then have fa: "findAttr (c_list merged) k = None" by (simp add: Attr_def AttrDefn_def)
    from Cons.prems obtain v where v: "Attr gen k = Some v"
      using Attr_None_iff[of gen k] by auto
    have sa: "SetAttr merged k v =
                CallExpr (c_comments merged) (c_x merged) (c_list merged @ [newAttr gen k])"
      by (simp add: SetAttr_def setAttr_absent[OF fa] newAttr_def v)
    have keys: "AttrKeys (CallExpr (c_comments merged) (c_x merged) (c_list merged @ [newAttr gen k]))
                  = AttrKeys merged @ [k]"
      by (simp add: AttrKeys_def map_filter_append List.map_filter_simps)
    show ?thesis
      using False n v by (simp add: Cons.IH[OF ks] sa keys)
  qed
qed

lemma mergeRule_eq:
  "mergeRule gen old =
     Inr (CallExpr (c_comments old) (c_x old)
            (mergedArgs gen old @
             newAttrs gen (AttrKeys gen) (List.map_filter attrKey (mergedArgs gen old))))"
  by (simp add: mergeRule_def mergeOldAttrs_eq addGenAttrs_eq mergedArgs_def AttrKeys_def)

lemma attrKey_unnamed: "a \<in> set (unnamedArgs as) \<Longrightarrow> attrKey a = None"
  by (induction as) (auto simp: isAssign_def attrKey_def split: if_splits expr.splits)

lemma findAttr_no_keys: "\<forall>a\<in>set as. attrKey a \<noteq> Some k \<Longrightarrow> findAttr as k = None"
  by (induction as) auto

lemma findAttr_append:
  "findAttr (as @ bs) k = (case findAttr as k of None \<Rightarrow> findAttr bs k | Some b \<Rightarrow> Some b)"
proof (induction as)
  case Nil
  show ?case by simp
next
  case (Cons a as)
  show ?case
  proof (cases "attrKey a = Some k")
    case True
    then obtain b where "a = BinaryE b" by (auto simp: attrKey_def split: expr.splits)
    with True show ?thesis by simp
  next
    case False
    with Cons show ?thesis by simp
  qed
qed

lemma attrKey_mergedAttr: "a \<in> set (mergedAttr gen old k) \<Longrightarrow> attrKey a = Some k"
proof (cases "AttrDefn old k")
  case None
  assume "a \<in> set (mergedAttr gen old k)"
  with None show ?thesis by (simp add: mergedAttr_def)
next
  case (Some oldAttr)
  assume a: "a \<in> set (mergedAttr gen old k)"
  from Some have k: "attrKey (BinaryE oldAttr) = Some k"
    by (simp add: AttrDefn_def findAttr_Some_attrKey)
  then have k': "attrKey (BinaryE (BinaryExpr (b_comments oldAttr) (b_x oldAttr) (b_op oldAttr) e)) = Some k" for e
    by (simp add: attrKey_def split: if_splits)
  show ?thesis
  proof (cases "mergeableFields k")
    case False
    with a Some k show ?thesis by (simp add: mergedAttr_def)
  next
    case True
    with a Some k' show ?thesis
      by (cases "mergedValueFor gen oldAttr k") (simp_all add: mergedAttr_def)
  qed
qed

lemma findAttr_newAttrs: "k \<notin> set ks \<Longrightarrow> findAttr (newAttrs gen ks present) k = None"
  by (induction ks arbitrary: present) auto

lemma findAttr_mergedAttrs_empty:
  "mergedAttr gen old k = [] \<Longrightarrow> findAttr (concat (map (mergedAttr gen old) ks)) k = None"
proof (rule findAttr_no_keys, rule ballI, rule notI)
  fix a
  assume e: "mergedAttr gen old k = []"
    and a: "a \<in> set (concat (map (mergedAttr gen old) ks))" and ak: "attrKey a = Some k"
  from a obtain k' where "a \<in> set (mergedAttr gen old k')" by auto
  then have "a \<in> set (mergedAttr gen old k)"
    using attrKey_mergedAttr[of a gen old k'] ak by simp
  with e show False by simp
qed

lemma findAttr_mergedAttrs_single:
  assumes "mergedAttr gen old k = [BinaryE b]" and "k \<in> set ks"
  shows "findAttr (concat (map (mergedAttr gen old) ks)) k = Some b"
  using assms(2)
proof (induction ks)
  case Nil
  then show ?case by simp
next
  case (Cons k' ks)
  show ?case
  proof (cases "k' = k")
    case True
    have "attrKey (BinaryE b) = Some k"
      using attrKey_mergedAttr[of "BinaryE b" gen old k] assms(1) by simp
    with True assms(1) show ?thesis by simp
  next
    case False
    then have "findAttr (mergedAttr gen old k') k = None"
      by (intro findAttr_no_keys) (auto dest: attrKey_mergedAttr)
    with False Cons show ?thesis by (simp add: findAttr_append)
  qed
qed

section \<open>Properties of the load merge\<close>

lemma set_update_subset: "set (AList.update k v al) \<subseteq> insert (k, v) (set al)"
  by (induction al) auto

lemma valsOk_update:
  "valsOk S vals \<Longrightarrow> v \<in> S \<Longrightarrow> valsOk S (AList.update (stringValue v) v vals)"
  using set_update_subset[of "stringValue v" v vals]
  by (auto simp: valsOk_def distinct_update)

lemma valsOk_genVals:
  "valsOk S vals \<Longrightarrow> set vs \<subseteq> S \<Longrightarrow> valsOk S (genVals vs vals)"
  by (induction vs arbitrary: vals) (auto simp: valsOk_update)

lemma valsOk_oldVals:
  "valsOk S vals \<Longrightarrow> set vs \<subseteq> S \<Longrightarrow> valsOk S (oldVals f vs vals)"
  by (induction vs arbitrary: vals) (auto simp: valsOk_update)

lemma keys_genVals:
  "fst ` set (genVals vs vals) = fst ` set vals \<union> stringValue ` set vs"
  by (induction vs arbitrary: vals) (auto simp: dom_update)


lemma map_filter_map_of:
  "set ks \<subseteq> fst ` set vals \<Longrightarrow>
   List.map_filter (map_of vals) ks = map (\<lambda>k. the (map_of vals k)) ks"
proof (induction ks)
  case Nil
  show ?case by (simp add: List.map_filter_simps)
next
  case (Cons k ks)
  then obtain v where "map_of vals k = Some v"
    by (cases "map_of vals k") (auto simp: map_of_eq_None_iff)
  with Cons show ?case by (simp add: List.map_filter_simps)
qed

lemma valsOk_lookup:
  assumes "valsOk S vals" "k \<in> fst ` set vals"
  shows "stringValue (the (map_of vals k)) = k \<and> the (map_of vals k) \<in> S"
proof -
  from assms(2) obtain v where v: "(k, v) \<in> set vals" by auto
  with assms(1) have "map_of vals k = Some v" by (simp add: valsOk_def)
  with assms(1) v show ?thesis by (auto simp: valsOk_def)
qed

section \<open>Properties of the file merge\<close>

lemma hasIgnore_iff: "hasIgnore cs \<longleftrightarrow> (\<exists>c\<in>set cs. HasPrefix c gazelleIgnore)"
  by (simp add: hasIgnore_def list_ex_iff)

lemma shouldIgnoreStmts_iff:
  "shouldIgnoreStmts ss \<longleftrightarrow>
     (\<exists>s\<in>set ss. hasIgnore (After (Comment s)) \<or> hasIgnore (Before (Comment s)))"
  by (induction ss) auto

text \<open>
  C9. When the existing file is read and parsed, and one of its top-level statements has
  a comment before or after it that begins with \<open># gazelle:ignore\<close>, then
  \<open>MergeWithExisting\<close> returns nil and leaves the world as it was: the files on disk are
  not changed and nothing is logged.
\<close>

theorem MergeWithExisting_ignored:
  assumes "files w existingFilePath = Some oldData"
    and "Parse existingFilePath oldData = Inr oldFile"
    and "s \<in> set (Stmt oldFile)"
    and "c \<in> set (Before (Comment s)) \<union> set (After (Comment s))"
    and "HasPrefix c gazelleIgnore"
  shows "MergeWithExisting Parse genFile existingFilePath w = Inr (None, w)"
proof -
  have "hasIgnore (After (Comment s)) \<or> hasIgnore (Before (Comment s))"
    using assms(4,5) by (auto simp: hasIgnore_iff)
  with assms(3) have "shouldIgnore oldFile"
    by (auto simp: shouldIgnore_def shouldIgnoreStmts_iff)
  with assms(1,2) show ?thesis
    by (simp add: MergeWithExisting_def ReadFile_def)
qed

theorem MergeWithExisting_ignored_witness:
  "MergeWithExisting (\<lambda>p d. Inr ignoredFile) exampleGenFile ''BUILD'' ignoredWorld
     = Inr (None, ignoredWorld)"
proof -
  have 1: "files ignoredWorld ''BUILD'' = Some ''go_library()''"
    by (simp add: ignoredWorld_def)
  have 2: "(\<lambda>p d. Inr ignoredFile) ''BUILD'' ''go_library()'' = (Inr ignoredFile :: ioError + bzlFile)"
    by simp
  have 3: "CallE (CallExpr \<lparr>Before = [''# gazelle:ignore''], Suffix = [], After = []\<rparr>
                       (LiteralExpr noComments ''go_library'') []) \<in> set (Stmt ignoredFile)"
    by (simp add: ignoredFile_def)
  have 4: "''# gazelle:ignore'' \<in>
             set (Before (Comment (CallE (CallExpr \<lparr>Before = [''# gazelle:ignore''], Suffix = [], After = []\<rparr>
                       (LiteralExpr noComments ''go_library'') [])))) \<union>
             set (After (Comment (CallE (CallExpr \<lparr>Before = [''# gazelle:ignore''], Suffix = [], After = []\<rparr>
                       (LiteralExpr noComments ''go_library'') []))))"
    by simp
  have 5: "HasPrefix ''# gazelle:ignore'' gazelleIgnore"
    by (simp add: HasPrefix_def gazelleIgnore_def)
  show ?thesis
    by (rule MergeWithExisting_ignored[OF 1 2 3 4 5])
qed

section \<open>Properties of the package selection\<close>

lemma pathBase_empty: "pathBase [] = ''.''"
  by (simp add: pathBase_def)

lemma pathBase_slashes: "p \<noteq> [] \<Longrightarrow> set p \<subseteq> {CHR ''/''} \<Longrightarrow> pathBase p = ''/''"
proof -
  assume ne: "p \<noteq> []" and sl: "set p \<subseteq> {CHR ''/''}"
  then have "dropWhile (\<lambda>c. c = CHR ''/'') (rev p) = []"
    by (auto simp: dropWhile_eq_Nil_conv)
  then have "stripTrailingSlashes p = []"
    by (simp only: stripTrailingSlashes_def rev.simps)
  then have "lastElement (stripTrailingSlashes p) = []"
    by (simp add: lastElement_def)
  then show ?thesis using ne by (simp add: pathBase_def)
qed

text \<open>
  C3. Let \<open>withGo\<close> be the packages of the map for which \<open>HasGo\<close> holds. With none,
  \<open>selectPackage\<close> fails with \<open>NoGoError\<close>; with exactly one it returns that package; with
  more than one it returns the package whose name is the default package name, and when
  there is none it fails with a \<open>MultiplePackageError\<close> that carries the name of every such
  package and, for each, its first Go file. The default package name is the base name of
  the directory, or, for the repository root only, the last element of the prefix as
  \<open>path.Base\<close> gives it, replaced by \<open>unnamed\<close> when \<open>path.Base\<close> reports an empty path
  (\<open>.\<close>) or a path of slashes (\<open>/\<close>).
\<close>

theorem selectPackage_policy:
  assumes "distinct (map fst packageMap)"
    and "withGo = filter (\<lambda>p. HasGo ops (snd p)) packageMap"
  shows "(withGo = [] \<longrightarrow> selectPackage ops pr packageMap = Inl (NoGoError (dir pr)))
       \<and> (\<forall>n p. withGo = [(n, p)] \<longrightarrow> selectPackage ops pr packageMap = Inr p)
       \<and> (length withGo > 1 \<longrightarrow>
            (\<forall>p. (defaultPackageName pr, p) \<in> set withGo \<longrightarrow>
                   selectPackage ops pr packageMap = Inr p)
          \<and> (defaultPackageName pr \<notin> fst ` set withGo \<longrightarrow>
               selectPackage ops pr packageMap =
                 Inl (MultiplePackageError (dir pr) (map fst withGo)
                        (map (\<lambda>p. firstGoFile ops (snd p)) withGo))))
       \<and> defaultPackageName pr =
           (if dir pr \<noteq> repoRoot pr then filepathBase (dir pr)
            else if pathBase (goPrefix pr) = ''.'' \<or> pathBase (goPrefix pr) = ''/''
                 then ''unnamed'' else pathBase (goPrefix pr))
       \<and> (goPrefix pr = [] \<longrightarrow> pathBase (goPrefix pr) = ''.'')
       \<and> (goPrefix pr \<noteq> [] \<and> set (goPrefix pr) \<subseteq> {CHR ''/''} \<longrightarrow> pathBase (goPrefix pr) = ''/'')"
proof -
  have d: "distinct (map fst withGo)"
    using assms by (simp add: distinct_map_filter)
  have c1: "withGo = [] \<longrightarrow> selectPackage ops pr packageMap = Inl (NoGoError (dir pr))"
    using assms(2) by (simp add: selectPackage_def)
  have c2: "\<forall>n p. withGo = [(n, p)] \<longrightarrow> selectPackage ops pr packageMap = Inr p"
    using assms(2) by (auto simp: selectPackage_def Let_def)
  have c3: "selectPackage ops pr packageMap = Inr p"
    if "length withGo > 1" and "(defaultPackageName pr, p) \<in> set withGo" for p
  proof -
    have "map_of withGo (defaultPackageName pr) = Some p"
      using d that(2) by simp
    moreover have "withGo \<noteq> []" "length withGo \<noteq> Suc 0" using that(1) by auto
    ultimately show ?thesis
      unfolding selectPackage_def Let_def assms(2)[symmetric] by simp
  qed
  have c4: "selectPackage ops pr packageMap =
                 Inl (MultiplePackageError (dir pr) (map fst withGo)
                        (map (\<lambda>p. firstGoFile ops (snd p)) withGo))"
    if "length withGo > 1" and "defaultPackageName pr \<notin> fst ` set withGo"
  proof -
    have "map_of withGo (defaultPackageName pr) = None"
      using that(2) by (simp add: map_of_eq_None_iff)
    moreover have "withGo \<noteq> []" "length withGo \<noteq> Suc 0" using that(1) by auto
    ultimately show ?thesis
      unfolding selectPackage_def Let_def assms(2)[symmetric] by simp
  qed
  have c5: "defaultPackageName pr =
           (if dir pr \<noteq> repoRoot pr then filepathBase (dir pr)
            else if pathBase (goPrefix pr) = ''.'' \<or> pathBase (goPrefix pr) = ''/''
                 then ''unnamed'' else pathBase (goPrefix pr))"
    by (simp add: defaultPackageName_def Let_def)
  have c34: "length withGo > 1 \<longrightarrow>
            (\<forall>p. (defaultPackageName pr, p) \<in> set withGo \<longrightarrow>
                   selectPackage ops pr packageMap = Inr p)
          \<and> (defaultPackageName pr \<notin> fst ` set withGo \<longrightarrow>
               selectPackage ops pr packageMap =
                 Inl (MultiplePackageError (dir pr) (map fst withGo)
                        (map (\<lambda>p. firstGoFile ops (snd p)) withGo)))"
    using c3 c4 by blast
  have c6: "goPrefix pr = [] \<longrightarrow> pathBase (goPrefix pr) = ''.''"
    using pathBase_empty by simp
  have c7: "goPrefix pr \<noteq> [] \<and> set (goPrefix pr) \<subseteq> {CHR ''/''} \<longrightarrow> pathBase (goPrefix pr) = ''/''"
    using pathBase_slashes by blast
  from c1 c2 c34 c5 c6 c7 show ?thesis
    by (intro conjI)
qed

theorem selectPackage_policy_witness:
  "selectPackage exampleOps \<lparr>repoRoot = ''/r'', goPrefix = ''x'', dir = ''/r/bar''\<rparr> fooBar
     = Inr (''bar'', [''bar.go''])
   \<and> selectPackage exampleOps \<lparr>repoRoot = ''/r'', goPrefix = ''x'', dir = ''/r/baz''\<rparr> fooBar
     = Inl (MultiplePackageError ''/r/baz'' [''foo'', ''bar''] [''foo.go'', ''bar.go''])"
proof -
  have d: "distinct (map fst fooBar)" by (simp add: fooBar_def)
  have f: "fooBar = filter (\<lambda>p. HasGo exampleOps (snd p)) fooBar"
    by (simp add: fooBar_def exampleOps_def HasSuffix_def)
  have l: "length fooBar > 1" by (simp add: fooBar_def)
  have n1: "defaultPackageName \<lparr>repoRoot = ''/r'', goPrefix = ''x'', dir = ''/r/bar''\<rparr> = ''bar''"
    by code_simp
  have n2: "defaultPackageName \<lparr>repoRoot = ''/r'', goPrefix = ''x'', dir = ''/r/baz''\<rparr> = ''baz''"
    by code_simp
  have m: "(''bar'', (''bar'', [''bar.go''])) \<in> set fooBar" by (simp add: fooBar_def)
  have nm: "''baz'' \<notin> fst ` set fooBar" by (simp add: fooBar_def)
  have fs: "map (\<lambda>p. firstGoFile exampleOps (snd p)) fooBar = [''foo.go'', ''bar.go'']"
    by (simp add: fooBar_def exampleOps_def HasSuffix_def)
  from selectPackage_policy[OF d f, of "\<lparr>repoRoot = ''/r'', goPrefix = ''x'', dir = ''/r/bar''\<rparr>"] l m n1
  have 1: "selectPackage exampleOps \<lparr>repoRoot = ''/r'', goPrefix = ''x'', dir = ''/r/bar''\<rparr> fooBar
     = Inr (''bar'', [''bar.go''])"
    by simp
  from selectPackage_policy[OF d f, of "\<lparr>repoRoot = ''/r'', goPrefix = ''x'', dir = ''/r/baz''\<rparr>"] l nm n2 fs
  have 2: "selectPackage exampleOps \<lparr>repoRoot = ''/r'', goPrefix = ''x'', dir = ''/r/baz''\<rparr> fooBar
     = Inl (MultiplePackageError ''/r/baz'' [''foo'', ''bar''] [''foo.go'', ''bar.go''])"
    by (simp add: fooBar_def)
  from 1 2 show ?thesis by simp
qed

section \<open>Properties of the walk\<close>














section \<open>A second merge of lists\<close>

lemma filter_keep_noKeeps: "noKeeps vs \<Longrightarrow> filter (\<lambda>x. P x \<and> shouldKeep x) vs = []"
  by (auto simp: noKeeps_def list_all_iff filter_empty_conv)

lemma keptValues_append: "keptValues (xs @ ys) = keptValues xs \<union> keptValues ys"
  by (auto simp: keptValues_def)

lemma keptValues_filter_keep: "keptValues (filter shouldKeep xs) = keptValues xs"
  by (auto simp: keptValues_def)

lemma keptValues_noKeeps: "noKeeps vs \<Longrightarrow> keptValues (filter P vs) = {}"
  by (auto simp: keptValues_def noKeeps_def list_all_iff)

lemma mergeList_twice:
  assumes nk: "noKeeps (elems g)" and x: "l_list x = elems (mergeList g ol)"
  shows "mergeList g (Some x) =
           (if l_list x = [] then None else Some (ListExpr noComments (l_list x) False))"
proof -
  let ?K = "filter shouldKeep (elems ol)"
  let ?F = "filter (\<lambda>v. stringValue v \<notin> keptValues (elems ol)) (elems g)"
  have lx: "l_list x = ?K @ ?F" using x by (simp add: elems_mergeList)
  have k: "filter shouldKeep (l_list x) = ?K"
    by (simp add: lx filter_keep_noKeeps[OF nk])
  have kv: "keptValues (l_list x) = keptValues (elems ol)"
    by (simp add: lx keptValues_append keptValues_filter_keep keptValues_noKeeps[OF nk])
  show ?thesis
    by (simp add: mergeList_Some k kv Let_def) (simp add: lx)
qed

lemma mergeList_self:
  assumes "noKeeps (l_list gl)" and "l_list x = l_list gl"
  shows "mergeList (Some gl) (Some x) =
           (if l_list gl = [] then None else Some (ListExpr noComments (l_list gl) False))"
  using mergeList_twice[of "Some gl" x None] assms by (simp add: elems_def)

lemma mergeList_not_None:
  "noKeeps (elems g) \<Longrightarrow> elems g \<noteq> [] \<Longrightarrow> mergeList g ol \<noteq> None"
proof (cases ol)
  case None
  assume "elems g \<noteq> []"
  with None show ?thesis by (cases g) (auto simp: elems_def)
next
  case (Some oldl)
  assume nk: "noKeeps (elems g)" and ne: "elems g \<noteq> []"
  show ?thesis
  proof (cases "filter shouldKeep (l_list oldl) = []")
    case True
    then have "keptValues (l_list oldl) = {}" by (auto simp: keptValues_def filter_empty_conv)
    with Some ne show ?thesis by (simp add: mergeList_Some Let_def)
  next
    case False
    with Some show ?thesis by (simp add: mergeList_Some Let_def)
  qed
qed

section \<open>A second merge of dictionaries\<close>

lemma keyValue_keyValueExpr: "keyValue gen old k = keyValueExpr k (mergedOut gen old k)"
  by (simp add: keyValue_def keyValueExpr_def)

lemma dictEntryKeyValue_keyValueExpr [simp]: "dictEntryKeyValue (keyValueExpr k v) = Inr (k, v)"
  by (simp add: keyValueExpr_def)

lemma dictPairs_keyValueExpr: "dictPairs (map (\<lambda>k. keyValueExpr k (val k)) ks) = map (\<lambda>k. (k, val k)) ks"
  by (induction ks) auto

lemma parses_keyValueExpr: "list_all parses (map (\<lambda>k. keyValueExpr k (val k)) ks)"
  by (induction ks) (auto simp: parses_def)

lemma oldEntries_success:
  "list_all parses kvs \<Longrightarrow> distinct (map fst (dictPairs kvs)) \<Longrightarrow>
   fst ` set (dictPairs kvs) \<inter> key ` set es = {} \<Longrightarrow>
   oldEntries kvs es = Inr (es @ map oldEntry (dictPairs kvs))"
proof (induction kvs arbitrary: es)
  case Nil
  show ?case by simp
next
  case (Cons kv kvs)
  from Cons.prems(1) obtain k v where kv: "dictEntryKeyValue kv = Inr (k, v)"
    by (cases "dictEntryKeyValue kv") (auto simp: parses_def)
  have nk: "entryMap es k = None"
    using Cons.prems(3) kv by (auto simp: entryMap_None_iff)
  have 1: "list_all parses kvs" using Cons.prems(1) by simp
  have 2: "distinct (map fst (dictPairs kvs))" using Cons.prems(2) kv by simp
  have 3: "fst ` set (dictPairs kvs) \<inter>
           key ` set (es @ [\<lparr>key = k, oldValue = Some v, genValue = None, mergedValue = None\<rparr>]) = {}"
    using Cons.prems(2,3) kv by auto
  show ?case
    using Cons.IH[OF 1 2 3] kv nk by (simp add: oldEntry_def)
qed

lemma genEntries_success:
  "list_all parses kvs \<Longrightarrow> genEntries kvs es = Inr (foldl addGenPair es (dictPairs kvs))"
proof (induction kvs arbitrary: es)
  case Nil
  show ?case by simp
next
  case (Cons kv kvs)
  from Cons.prems obtain p where kv: "dictEntryKeyValue kv = Inr p"
    by (cases "dictEntryKeyValue kv") (auto simp: parses_def)
  have "list_all parses kvs" using Cons.prems by simp
  from Cons.IH[OF this] kv show ?case
    by (simp only: genEntries_Cons[OF kv]) simp
qed

lemma genEntries_parses: "genEntries kvs es = Inr es' \<Longrightarrow> list_all parses kvs"
proof (induction kvs arbitrary: es)
  case Nil
  show ?case by simp
next
  case (Cons kv kvs)
  from Cons.prems obtain p where kv: "dictEntryKeyValue kv = Inr p"
    by (auto split: sum.splits)
  with Cons.prems have "genEntries kvs (addGenPair es p) = Inr es'"
    by (simp only: genEntries_Cons)
  from Cons.IH[OF this] kv show ?case by (simp add: parses_def)
qed

lemma mergeDict_fixed:
  assumes md: "md = DictExpr noComments (map (\<lambda>k. keyValueExpr k (val k)) ks) True"
    and ks: "ks = K @ (if hasD then [defaultKey] else [])"
    and sorted: "sorted_wrt (<) K"
    and nd: "defaultKey \<notin> set K"
    and gp: "list_all parses (dictList gd)"
    and sub: "caseKeys gd \<subseteq> set ks"
    and fixK: "\<forall>k\<in>set K. mergeList (caseValue gd k) (Some (val k)) = Some (val k)"
    and fixD: "hasD \<longrightarrow>
                 coerced (mergeList (caseValue gd defaultKey) (Some (val defaultKey))) = val defaultKey"
    and live: "K \<noteq> [] \<or> (hasD \<and> l_list (val defaultKey) \<noteq> [])"
  shows "mergeDict gd (Some md) = Inr (Some md)"
proof -
  have dK: "distinct K" using sorted by (simp add: strict_sorted_iff)
  have dks: "distinct ks" using dK nd by (simp add: ks)
  have pairs: "dictPairs (d_list md) = map (\<lambda>k. (k, val k)) ks"
    by (simp add: md dictPairs_keyValueExpr)
  have fstpairs: "map fst (dictPairs (d_list md)) = ks"
    by (simp add: pairs comp_def)
  have o: "oldEntries (d_list md) [] = Inr ([] @ map oldEntry (dictPairs (d_list md)))"
    by (rule oldEntries_success) (simp_all add: fstpairs dks, simp add: md parses_keyValueExpr)
  have g: "genEntries (dictList gd) ([] @ map oldEntry (dictPairs (d_list md))) =
             Inr (foldl addGenPair ([] @ map oldEntry (dictPairs (d_list md))) (dictPairs (dictList gd)))"
    by (rule genEntries_success[OF gp])
  have m: "mergeDict gd (Some md) = Inr (mergedDictOf gd md)"
    by (rule mergeDict_Some_Inr[OF o g])
  have cv: "caseValue (Some md) k = (if k \<in> set ks then Some (val k) else None)" for k
  proof -
    have "map_of (rev (map (\<lambda>k. (k, val k)) ks)) k = map_of (map (\<lambda>k. (k, val k)) ks) k"
      using dks by (simp add: map_of_rev_distinct comp_def)
    also have "\<dots> = (if k \<in> set ks then Some (val k) else None)"
      by (induction ks) auto
    finally show ?thesis by (simp add: caseValue_def pairs)
  qed
  have ck: "caseKeys (Some md) = set ks"
    using fstpairs by (simp add: caseKeys_def) (metis list.set_map)
  have mcK: "mergedCase gd (Some md) k = Some (val k)" if "k \<in> set K" for k
    using that fixK by (simp add: mergedCase_def cv ks)
  have mcN: "mergedCase gd (Some md) k = None" if "k \<notin> set ks" for k
  proof -
    from that sub have "k \<notin> caseKeys gd" by auto
    then have "caseValue gd k = None" by (simp add: caseValue_None_iff)
    with that show ?thesis by (simp add: mergedCase_def cv)
  qed
  have mcD: "coerced (mergedCase gd (Some md) defaultKey) = val defaultKey" if "hasD"
    using that fixD by (simp add: mergedCase_def cv ks)
  have memK: "k \<in> set K" if "k \<in> set ks" "k \<noteq> defaultKey" for k
    using that by (cases hasD) (simp_all add: ks)
  have setlive: "set (liveKeys gd md) = set K"
  proof -
    have "(k \<noteq> defaultKey \<and> mergedCase gd (Some md) k \<noteq> None) = (k \<in> set K)" for k
    proof (cases "k \<in> set K")
      case True
      with nd have "k \<noteq> defaultKey" by metis
      with True mcK[OF True] show ?thesis by simp
    next
      case False
      show ?thesis
      proof (cases "k = defaultKey")
        case True
        with False show ?thesis by simp
      next
        case ne: False
        with False memK[of k] have "k \<notin> set ks" by metis
        from mcN[OF this] False show ?thesis by simp
      qed
    qed
    then show ?thesis by (simp add: set_liveKeys)
  qed
  have dlive: "distinct (liveKeys gd md)"
    by (rule distinct_liveKeys) (simp add: fstpairs dks)
  have sortlive: "sort (liveKeys gd md) = K"
  proof (rule sorted_distinct_set_unique)
    show "sorted (sort (liveKeys gd md))" by simp
    show "distinct (sort (liveKeys gd md))" using dlive by simp
    show "sorted K" using sorted by (simp add: strict_sorted_iff)
    show "distinct K" by (rule dK)
    show "set (sort (liveKeys gd md)) = set K" using setlive by simp
  qed
  have hd: "hasDefault gd (Some md) = hasD"
  proof (cases hasD)
    case True
    then show ?thesis by (simp add: hasDefault_def ck ks)
  next
    case False
    then have "defaultKey \<notin> set ks" using nd by (simp add: ks)
    moreover from this sub have "defaultKey \<notin> caseKeys gd" by auto
    ultimately show ?thesis using False by (simp add: hasDefault_def ck)
  qed
  have memD: "hasD" if "defaultKey \<in> set ks"
    using that nd by (cases hasD) (simp_all add: ks)
  have out: "mergedOut gd (Some md) k = val k" if "k \<in> set ks" for k
  proof (cases "k = defaultKey")
    case True
    with that have "hasD" using memD by simp
    with True show ?thesis by (simp add: mergedOut_def mcD)
  next
    case False
    with that have "k \<in> set K" by (rule memK)
    with False show ?thesis by (simp add: mergedOut_def mcK)
  qed
  have entries: "map (keyValue gd (Some md)) ks = map (\<lambda>k. keyValueExpr k (val k)) ks"
    by (rule map_cong) (simp_all add: keyValue_keyValueExpr out)
  have nocollapse: "\<not> (liveKeys gd md = [] \<and>
         (\<not> hasDefault gd (Some md) \<or> l_list (coerced (mergedCase gd (Some md) defaultKey)) = []))"
  proof
    assume a: "liveKeys gd md = [] \<and>
         (\<not> hasDefault gd (Some md) \<or> l_list (coerced (mergedCase gd (Some md) defaultKey)) = [])"
    then have "K = []" using setlive by auto
    with live have h: "hasD" and ne: "l_list (val defaultKey) \<noteq> []" by auto
    from a h have "l_list (coerced (mergedCase gd (Some md) defaultKey)) = []" by (simp add: hd)
    with ne show False by (simp add: mcD[OF h])
  qed
  have "mergedDictOf gd md =
          Some (DictExpr noComments
                   (map (keyValue gd (Some md))
                      (sort (liveKeys gd md) @
                       (if hasDefault gd (Some md) then [defaultKey] else [])))
                   True)"
    unfolding mergedDictOf_def by (rule if_not_P[OF nocollapse])
  also have "\<dots> = Some (DictExpr noComments (map (keyValue gd (Some md)) ks) True)"
    unfolding sortlive hd ks ..
  also have "\<dots> = Some md"
    by (subst entries) (simp add: md)
  finally have "mergedDictOf gd md = Some md" .
  with m show ?thesis by simp
qed

lemma genEntryOk_parses: "genEntryOk kv \<Longrightarrow> parses kv"
  by (auto simp: genEntryOk_def parses_def split: sum.splits)

lemma genDictOk_parses: "genDictOk gd \<Longrightarrow> list_all parses (dictList gd)"
  by (auto simp: genDictOk_def list_all_iff genEntryOk_parses)

lemma dictPairs_mem:
  "(k, v) \<in> set (dictPairs kvs) \<Longrightarrow> \<exists>kv\<in>set kvs. dictEntryKeyValue kv = Inr (k, v)"
  by (induction kvs) (auto split: sum.splits)

lemma genDictOk_value:
  assumes "genDictOk gd" and "caseValue gd k = Some v"
  shows "plainList False v \<and> (k \<noteq> defaultKey \<longrightarrow> l_list v \<noteq> [])"
proof -
  from assms(2) obtain d where gd: "gd = Some d" and m: "map_of (rev (dictPairs (d_list d))) k = Some v"
    by (cases gd) (auto simp: caseValue_def)
  from m have "(k, v) \<in> set (dictPairs (d_list d))"
    using map_of_SomeD by fastforce
  then obtain kv where kv: "kv \<in> set (d_list d)" and p: "dictEntryKeyValue kv = Inr (k, v)"
    using dictPairs_mem by blast
  from assms(1) gd kv have "genEntryOk kv"
    by (simp add: genDictOk_def dictList_def list_all_iff)
  with p show ?thesis by (simp add: genEntryOk_def)
qed

lemma genDictOk_genListOk: "genDictOk gd \<Longrightarrow> genListOk (caseValue gd k)"
  using genDictOk_value[of gd k] by (cases "caseValue gd k") (auto simp: genListOk_def)

lemma genListOk_noKeeps: "genListOk g \<Longrightarrow> noKeeps (elems g)"
  by (cases g) (auto simp: genListOk_def plainList_def elems_def noKeeps_def)

lemma mergeList_result_plain:
  assumes "genListOk g" and "mergeList g ol = Some y"
  shows "y = ListExpr noComments (l_list y) False"
proof (cases ol)
  case None
  with assms show ?thesis
    by (cases y) (auto simp: genListOk_def plainList_def)
next
  case (Some oldl)
  with assms(2) show ?thesis
    by (auto simp: mergeList_Some Let_def split: if_splits)
qed

lemma mergeList_fixed:
  assumes g: "genListOk g" and m: "mergeList g ol = Some x" and ne: "l_list x \<noteq> []"
  shows "mergeList g (Some x) = Some x"
proof -
  have "l_list x = elems (mergeList g ol)" using m by (simp add: elems_def)
  from mergeList_twice[OF genListOk_noKeeps[OF g] this] ne
  have "mergeList g (Some x) = Some (ListExpr noComments (l_list x) False)" by simp
  with mergeList_result_plain[OF g m] show ?thesis by simp
qed

lemma mergeList_Some_nonempty:
  "mergeList g (Some oldl) = Some x \<Longrightarrow> l_list x \<noteq> []"
  by (auto simp: mergeList_Some Let_def split: if_splits)

lemma coerced_elems: "l_list (coerced m) = elems m"
  by (cases m) (simp_all add: coerced_def elems_def)

lemma mergeList_coerced_fixed:
  assumes g: "genListOk g"
  shows "coerced (mergeList g (Some (coerced (mergeList g ol)))) = coerced (mergeList g ol)"
proof -
  let ?x = "coerced (mergeList g ol)"
  have "l_list ?x = elems (mergeList g ol)" by (rule coerced_elems)
  from mergeList_twice[OF genListOk_noKeeps[OF g] this]
  have "coerced (mergeList g (Some ?x)) = ListExpr noComments (l_list ?x) False"
    by (simp add: coerced_def)
  also have "\<dots> = ?x"
  proof (cases "mergeList g ol")
    case None
    then show ?thesis by (simp add: coerced_def)
  next
    case (Some y)
    with mergeList_result_plain[OF g Some] show ?thesis by (simp add: coerced_def)
  qed
  finally show ?thesis .
qed

lemma mergeDict_twice:
  assumes ok: "genDictOk gd" and m: "mergeDict gd (Some oldd) = Inr (Some md)"
  shows "mergeDict gd (Some md) = Inr (Some md)"
proof -
  from mergeDict_Some_Inr_iff[OF m]
  have r: "mergedDictOf gd oldd = Some md" and d: "distinct (map fst (dictPairs (d_list oldd)))"
    by simp_all
  let ?K = "sort (liveKeys gd oldd)"
  let ?hd = "hasDefault gd (Some oldd)"
  let ?val = "mergedOut gd (Some oldd)"
  let ?ks = "?K @ (if ?hd then [defaultKey] else [])"
  from r have nocol: "\<not> (liveKeys gd oldd = [] \<and>
         (\<not> ?hd \<or> l_list (coerced (mergedCase gd (Some oldd) defaultKey)) = []))"
    unfolding mergedDictOf_def by (auto split: if_splits)
  have kv: "keyValue gd (Some oldd) = (\<lambda>k. keyValueExpr k (?val k))"
    by (rule ext) (rule keyValue_keyValueExpr)
  have "mergedDictOf gd oldd = Some (DictExpr noComments (map (keyValue gd (Some oldd)) ?ks) True)"
    unfolding mergedDictOf_def by (rule if_not_P[OF nocol])
  with r have "md = DictExpr noComments (map (keyValue gd (Some oldd)) ?ks) True" by simp
  then have md: "md = DictExpr noComments (map (\<lambda>k. keyValueExpr k (?val k)) ?ks) True"
    unfolding kv .
  have sorted: "sorted_wrt (<) ?K"
    using distinct_liveKeys[OF d, of gd] by (simp add: strict_sorted_iff)
  have nd: "defaultKey \<notin> set ?K" by (simp add: default_notin_liveKeys)
  have sub: "caseKeys gd \<subseteq> set ?ks"
  proof
    fix k assume k: "k \<in> caseKeys gd"
    show "k \<in> set ?ks"
    proof (cases "k = defaultKey")
      case True
      with k show ?thesis by (simp add: hasDefault_def)
    next
      case False
      from k obtain v where v: "caseValue gd k = Some v"
        using caseValue_None_iff[of gd k] by auto
      from genDictOk_value[OF ok v] False have pl: "plainList False v" and ne: "l_list v \<noteq> []"
        by simp_all
      have "mergeList (Some v) (caseValue (Some oldd) k) \<noteq> None"
        by (rule mergeList_not_None) (use pl ne in \<open>simp_all add: elems_def plainList_def\<close>)
      with False v have "k \<in> set (liveKeys gd oldd)"
        by (simp add: set_liveKeys mergedCase_def)
      then show ?thesis by simp
    qed
  qed
  have fixK: "\<forall>k\<in>set ?K. mergeList (caseValue gd k) (Some (?val k)) = Some (?val k)"
  proof
    fix k assume "k \<in> set ?K"
    then have k: "k \<noteq> defaultKey" and mc: "mergedCase gd (Some oldd) k \<noteq> None"
      by (simp_all add: set_liveKeys)
    then obtain x where x: "mergeList (caseValue gd k) (caseValue (Some oldd) k) = Some x"
      by (auto simp: mergedCase_def)
    have val: "?val k = x" using k x by (simp add: mergedOut_def mergedCase_def)
    have ne: "l_list x \<noteq> []"
    proof (cases "caseValue (Some oldd) k")
      case None
      with x have "caseValue gd k = Some x" by simp
      from genDictOk_value[OF ok this] k show ?thesis by simp
    next
      case (Some ov)
      with x show ?thesis by (simp add: mergeList_Some_nonempty)
    qed
    show "mergeList (caseValue gd k) (Some (?val k)) = Some (?val k)"
      unfolding val by (rule mergeList_fixed[OF genDictOk_genListOk[OF ok] x ne])
  qed
  have fixD: "?hd \<longrightarrow>
        coerced (mergeList (caseValue gd defaultKey) (Some (?val defaultKey))) = ?val defaultKey"
    using mergeList_coerced_fixed[OF genDictOk_genListOk[OF ok, of defaultKey], of "caseValue (Some oldd) defaultKey"]
    by (simp add: mergedOut_def mergedCase_def)
  have live: "?K \<noteq> [] \<or> (?hd \<and> l_list (?val defaultKey) \<noteq> [])"
    using nocol by (auto simp: mergedOut_def simp flip: set_empty)
  show ?thesis
    by (rule mergeDict_fixed[OF md refl sorted nd genDictOk_parses[OF ok] sub fixK fixD live])
qed

lemma plainList_eq: "plainList b v \<Longrightarrow> v = ListExpr noComments (l_list v) b"
  by (cases v) (auto simp: plainList_def)

lemma normalEntry_pairs:
  "list_all normalEntry kvs \<Longrightarrow> kvs = map (\<lambda>p. keyValueExpr (fst p) (snd p)) (dictPairs kvs)"
proof (induction kvs)
  case Nil
  show ?case by simp
next
  case (Cons kv kvs)
  from Cons.prems obtain k v where kv: "dictEntryKeyValue kv = Inr (k, v)" and e: "kv = keyValueExpr k v"
    by (cases "dictEntryKeyValue kv") (auto simp: normalEntry_def)
  from Cons have "kvs = map (\<lambda>p. keyValueExpr (fst p) (snd p)) (dictPairs kvs)" by simp
  with kv e show ?case by simp
qed

lemma entryKey_pairs:
  "list_all parses kvs \<Longrightarrow> map entryKey kvs = map fst (dictPairs kvs)"
proof (induction kvs)
  case Nil
  show ?case by simp
next
  case (Cons kv kvs)
  from Cons.prems obtain p where kv: "dictEntryKeyValue kv = Inr p"
    by (cases "dictEntryKeyValue kv") (auto simp: parses_def)
  with Cons show ?case by (cases p) (simp add: entryKey_def)
qed

lemma keysOk_distinct: "keysOk ks \<Longrightarrow> distinct ks"
proof -
  assume a: "keysOk ks"
  let ?K = "filter (\<lambda>k. k \<noteq> defaultKey) ks"
  from a have e: "ks = ?K @ (if defaultKey \<in> set ks then [defaultKey] else [])"
    and s: "sorted_wrt (<) ?K" by (simp_all add: keysOk_def)
  from s have "distinct ?K" by (simp add: strict_sorted_iff)
  then have "distinct (?K @ (if defaultKey \<in> set ks then [defaultKey] else []))" by simp
  with e show ?thesis by metis
qed

lemma mergeDict_self:
  assumes n: "normalDict gd"
  shows "mergeDict (Some gd) (Some gd) = Inr (Some gd)"
proof -
  let ?ps = "dictPairs (d_list gd)"
  let ?ks = "map entryKey (d_list gd)"
  let ?K = "filter (\<lambda>k. k \<noteq> defaultKey) ?ks"
  let ?hasD = "defaultKey \<in> set ?ks"
  let ?val = "\<lambda>k. the (caseValue (Some gd) k)"
  from n have c: "d_comments gd = noComments" and mu: "d_multi gd"
    and ne: "list_all normalEntry (d_list gd)" and ok: "genDictOk (Some gd)"
    and keys: "keysOk ?ks"
    and live0: "?K \<noteq> [] \<or> elems (caseValue (Some gd) defaultKey) \<noteq> []"
    by (simp_all add: normalDict_def)
  have gp: "list_all parses (dictList (Some gd))" by (rule genDictOk_parses[OF ok])
  then have gp': "list_all parses (d_list gd)" by (simp add: dictList_def)
  have ksfst: "?ks = map fst ?ps" by (rule entryKey_pairs[OF gp'])
  have dks: "distinct ?ks" by (rule keysOk_distinct[OF keys])
  then have dps: "distinct (map fst ?ps)" by (simp add: ksfst)
  have cv: "caseValue (Some gd) k = map_of ?ps k" for k
    by (simp add: caseValue_def map_of_rev_distinct[OF dps])
  have pv: "p \<in> set ?ps \<Longrightarrow> ?val (fst p) = snd p" for p
    using dps by (cases p) (simp add: cv)
  have "map (\<lambda>p. keyValueExpr (fst p) (snd p)) ?ps = map (\<lambda>p. keyValueExpr (fst p) (?val (fst p))) ?ps"
    by (rule map_cong) (simp_all add: pv)
  also have "\<dots> = map (\<lambda>k. keyValueExpr k (?val k)) (map fst ?ps)"
    by (simp add: comp_def)
  finally have dl: "d_list gd = map (\<lambda>k. keyValueExpr k (?val k)) ?ks"
    using normalEntry_pairs[OF ne] by (simp add: ksfst)
  have md: "gd = DictExpr noComments (map (\<lambda>k. keyValueExpr k (?val k)) ?ks) True"
    using c mu dl by (cases gd) simp
  have ks: "?ks = ?K @ (if ?hasD then [defaultKey] else [])"
    using keys by (simp add: keysOk_def)
  have sorted: "sorted_wrt (<) ?K" using keys by (simp add: keysOk_def)
  have nd: "defaultKey \<notin> set ?K" by simp
  have ck: "caseKeys (Some gd) = set ?ks"
    by (simp add: caseKeys_def ksfst)
  have sub: "caseKeys (Some gd) \<subseteq> set ?ks" by (simp add: ck)
  have valk: "caseValue (Some gd) k = Some (?val k)" if "k \<in> set ?ks" for k
  proof -
    from that have "k \<in> caseKeys (Some gd)" by (simp add: ck)
    then show ?thesis using caseValue_None_iff[of "Some gd" k] by auto
  qed
  have self: "mergeList (Some v) (Some v) =
                (if l_list v = [] then None else Some v)" if "plainList False v" for v
  proof -
    have "mergeList (Some v) (Some v) =
            (if l_list v = [] then None else Some (ListExpr noComments (l_list v) False))"
      by (rule mergeList_self) (use that in \<open>simp_all add: plainList_def\<close>)
    with plainList_eq[OF that] show ?thesis by simp
  qed
  have fixK: "\<forall>k\<in>set ?K. mergeList (caseValue (Some gd) k) (Some (?val k)) = Some (?val k)"
  proof
    fix k assume k: "k \<in> set ?K"
    then have kin: "k \<in> set ?ks" and kne: "k \<noteq> defaultKey" by simp_all
    from valk[OF kin] obtain v where v: "caseValue (Some gd) k = Some v" by blast
    from genDictOk_value[OF ok v] kne
    have pl: "plainList False v" and nonempty: "l_list v \<noteq> []" by simp_all
    have "mergeList (Some v) (Some v) = Some v"
      using self[OF pl] nonempty by simp
    then show "mergeList (caseValue (Some gd) k) (Some (?val k)) = Some (?val k)"
      by (simp add: v)
  qed
  have fixD: "?hasD \<longrightarrow>
        coerced (mergeList (caseValue (Some gd) defaultKey) (Some (?val defaultKey))) = ?val defaultKey"
  proof
    assume h: "?hasD"
    from valk[OF h] obtain v where v: "caseValue (Some gd) defaultKey = Some v" by blast
    from genDictOk_value[OF ok v] have pl: "plainList False v" by simp
    have "coerced (mergeList (Some v) (Some v)) = v"
    proof (cases "l_list v = []")
      case True
      with self[OF pl] plainList_eq[OF pl] show ?thesis by (simp add: coerced_def)
    next
      case False
      with self[OF pl] show ?thesis by (simp add: coerced_def)
    qed
    then show "coerced (mergeList (caseValue (Some gd) defaultKey) (Some (?val defaultKey))) = ?val defaultKey"
      by (simp add: v)
  qed
  have live: "?K \<noteq> [] \<or> (?hasD \<and> l_list (?val defaultKey) \<noteq> [])"
  proof (cases "?K = []")
    case False
    then show ?thesis by simp
  next
    case True
    with live0 have e: "elems (caseValue (Some gd) defaultKey) \<noteq> []" by simp
    then obtain v where v: "caseValue (Some gd) defaultKey = Some v"
      by (cases "caseValue (Some gd) defaultKey") (auto simp: elems_def)
    then have h: "?hasD" using caseValue_None_iff[of "Some gd" defaultKey] by (simp add: ck)
    from e v have "l_list (?val defaultKey) \<noteq> []" by (simp add: elems_def)
    with h show ?thesis by simp
  qed
  have gp2: "list_all parses (dictList (Some gd))" by (rule gp)
  have "mergeDict (Some gd) (Some gd) = Inr (Some gd)"
    by (rule mergeDict_fixed[OF md ks sorted nd gp2 sub fixK fixD live])
  then show ?thesis .
qed

section \<open>A second merge of expressions\<close>

lemma mergeExpr_nonstring:
  "\<not> isStringExpr gen \<Longrightarrow>
   mergeExpr gen old =
     (case exprListAndDict gen of
        Inl err \<Rightarrow> Inl err
      | Inr (gl, gd) \<Rightarrow>
          (case exprListAndDict old of
             Inl err \<Rightarrow> Inl err
           | Inr (ol, od) \<Rightarrow>
               (case mergeDict gd od of
                  Inl err \<Rightarrow> Inl err
                | Inr md \<Rightarrow> Inr (combine (mergeList gl ol) md))))"
  by (auto simp: mergeExpr_def combine_def Let_def split: sum.splits option.splits prod.splits)

lemma decomp_selectCall [simp]: "exprListAndDict (Some (selectCall d)) = Inr (None, Some d)"
  by (simp add: selectCall_def isSelect_def)

lemma decomp_combine:
  "combine ml md = Some v \<Longrightarrow>
   exprListAndDict (Some v) =
     Inr (map_option (\<lambda>l. if md = None then l else ListExpr (l_comments l) (l_list l) True) ml, md)"
  by (cases ml; cases md) (auto simp: combine_def selectCall_def isSelect_def)

lemma combine_not_string: "combine ml md = Some v \<Longrightarrow> \<not> isStringExpr (Some v)"
  by (cases ml; cases md) (auto simp: combine_def selectCall_def isStringExpr_def)

lemma elems_nonempty: "elems m \<noteq> [] \<Longrightarrow> m \<noteq> None"
  by (cases m) (simp_all add: elems_def)

lemma mergeDict_normal_not_None:
  assumes n: "normalDict d" and m: "mergeDict (Some d) od = Inr md"
  shows "md \<noteq> None"
proof (cases od)
  case None
  with m show ?thesis by (auto simp: mergeDict_def)
next
  case (Some oldd)
  from n have ok: "genDictOk (Some d)"
    and live0: "filter (\<lambda>k. k \<noteq> defaultKey) (map entryKey (d_list d)) \<noteq> [] \<or>
                elems (caseValue (Some d) defaultKey) \<noteq> []"
    by (simp_all add: normalDict_def)
  from m Some mergeDict_Some_Inr_iff[of "Some d" oldd md]
  have r: "md = mergedDictOf (Some d) oldd" by simp
  have gp: "list_all parses (d_list d)" using genDictOk_parses[OF ok] by (simp add: dictList_def)
  have ck: "caseKeys (Some d) = set (map entryKey (d_list d))"
    by (simp add: caseKeys_def entryKey_pairs[OF gp])
  have nonempty: "elems (mergedCase (Some d) (Some oldd) k) \<noteq> []"
    if "elems (caseValue (Some d) k) \<noteq> []" for k
  proof -
    have "mergeList (caseValue (Some d) k) (caseValue (Some oldd) k) \<noteq> None"
      by (rule mergeList_not_None[OF genListOk_noKeeps[OF genDictOk_genListOk[OF ok]] that])
    then obtain x where x: "mergeList (caseValue (Some d) k) (caseValue (Some oldd) k) = Some x"
      by auto
    have "l_list x \<noteq> []"
    proof (cases "caseValue (Some oldd) k")
      case None
      with x that show ?thesis by (simp add: elems_def)
    next
      case (Some ov)
      with x show ?thesis by (simp add: mergeList_Some_nonempty)
    qed
    with x show ?thesis by (simp add: mergedCase_def elems_def)
  qed
  show ?thesis
  proof (cases "filter (\<lambda>k. k \<noteq> defaultKey) (map entryKey (d_list d)) = []")
    case False
    then obtain k where k: "k \<in> set (map entryKey (d_list d))" and kne: "k \<noteq> defaultKey"
      by (auto simp: filter_empty_conv)
    then have "k \<in> caseKeys (Some d)" by (simp add: ck)
    then obtain v where v: "caseValue (Some d) k = Some v"
      using caseValue_None_iff[of "Some d" k] by auto
    from genDictOk_value[OF ok v] kne have "elems (caseValue (Some d) k) \<noteq> []"
      by (simp add: v elems_def)
    from nonempty[OF this] have "mergedCase (Some d) (Some oldd) k \<noteq> None"
      by (rule elems_nonempty)
    with kne have "k \<in> set (liveKeys (Some d) oldd)" by (simp add: set_liveKeys)
    then have "liveKeys (Some d) oldd \<noteq> []" by auto
    then show ?thesis by (simp add: r mergedDictOf_def)
  next
    case True
    with live0 have e: "elems (caseValue (Some d) defaultKey) \<noteq> []" by simp
    then have "caseValue (Some d) defaultKey \<noteq> None" by (rule elems_nonempty)
    then have h: "hasDefault (Some d) (Some oldd)"
      using caseValue_None_iff[of "Some d" defaultKey] by (simp add: hasDefault_def)
    from nonempty[OF e] have "l_list (coerced (mergedCase (Some d) (Some oldd) defaultKey)) \<noteq> []"
      by (simp add: coerced_elems)
    with h show ?thesis by (simp add: r mergedDictOf_def)
  qed
qed

lemma mergeExpr_string_keep_aux:
  "mergeExpr (Some (StringExpr c s)) (Some oldE) =
     Inr (Some (if shouldKeep oldE then oldE else StringExpr c s))"
  by (simp add: mergeExpr_def isStringExpr_def)

lemma genValueOpt_decomp:
  assumes "genValueOpt g" and "\<not> isStringExpr g"
  obtains gl gd where "exprListAndDict g = Inr (gl, gd)" and "partsOk gl gd" and "combine gl gd = g"
proof (cases g)
  case None
  have "exprListAndDict None = Inr (None, None)" "partsOk None None" "combine None None = None"
    by (simp_all add: partsOk_def combine_def)
  with None that show ?thesis by blast
next
  case (Some v)
  with assms have "genValueOk v" "\<not> isStringExpr (Some v)" by (simp_all add: genValueOpt_def)
  then obtain gl gd where "exprListAndDict (Some v) = Inr (gl, gd)" "partsOk gl gd" "combine gl gd = Some v"
    by (auto simp: genValueOk_def partsOk_def split: sum.splits)
  with Some that show ?thesis by blast
qed

lemma partsOk_dict: "partsOk gl gd \<Longrightarrow> genDictOk gd"
  by (cases gd) (auto simp: partsOk_def genDictOk_def dictList_def normalDict_def)

lemma partsOk_noKeeps: "partsOk gl gd \<Longrightarrow> noKeeps (elems gl)"
  by (cases gl) (auto simp: partsOk_def elems_def plainList_def noKeeps_def)

lemma partsOk_list_nonempty: "partsOk (Some l) gd \<Longrightarrow> elems (Some l) \<noteq> []"
  by (simp add: partsOk_def elems_def)

text \<open>The second merge of the list part.\<close>

lemma list_part_again:
  assumes p: "partsOk gl gd" and x: "mergeList gl ol = Some x" and x': "l_list x' = l_list x"
  shows "mergeList gl (Some x') = Some (ListExpr noComments (l_list x) False)"
    and "l_comments x = noComments"
    and "ol \<noteq> None \<or> gd = None \<Longrightarrow> l_multi x = False"
proof -
  have e: "l_list x' = elems (mergeList gl ol)" using x x' by (simp add: elems_def)
  have ne: "l_list x \<noteq> []"
  proof (cases ol)
    case None
    with x have "gl = Some x" by simp
    with p show ?thesis by (simp add: partsOk_def)
  next
    case (Some oldl)
    with x show ?thesis by (simp add: mergeList_Some_nonempty)
  qed
  from mergeList_twice[OF partsOk_noKeeps[OF p] e] ne x'
  show "mergeList gl (Some x') = Some (ListExpr noComments (l_list x) False)" by simp
  show "l_comments x = noComments"
  proof (cases ol)
    case None
    with x have "gl = Some x" by simp
    with p show ?thesis by (simp add: partsOk_def plainList_def)
  next
    case (Some oldl)
    with x show ?thesis by (auto simp: mergeList_Some Let_def split: if_splits)
  qed
  show "l_multi x = False" if "ol \<noteq> None \<or> gd = None"
  proof (cases ol)
    case None
    with x have "gl = Some x" by simp
    with p that None show ?thesis by (simp add: partsOk_def plainList_def)
  next
    case (Some oldl)
    with x show ?thesis by (auto simp: mergeList_Some Let_def split: if_splits)
  qed
qed

lemma parts_fixed:
  assumes p: "partsOk gl gd"
    and md: "mergeDict gd od = Inr md"
    and v1: "combine (mergeList gl ol) md = Some v1"
  shows "\<exists>ol' od'. exprListAndDict (Some v1) = Inr (ol', od') \<and>
           mergeDict gd od' = Inr md \<and> combine (mergeList gl ol') md = Some v1"
proof -
  let ?ml = "mergeList gl ol"
  let ?ol' = "map_option (\<lambda>l. if md = None then l else ListExpr (l_comments l) (l_list l) True) ?ml"
  have dec: "exprListAndDict (Some v1) = Inr (?ol', md)"
    by (rule decomp_combine[OF v1])
  have dict: "mergeDict gd md = Inr md"
  proof (cases md)
    case None
    have "gd = None"
    proof (cases gd)
      case (Some d)
      with p have "normalDict d" by (simp add: partsOk_def)
      from mergeDict_normal_not_None[OF this] md Some None show ?thesis by blast
    qed simp
    with None show ?thesis by (simp add: mergeDict_def)
  next
    case (Some dm)
    show ?thesis
    proof (cases od)
      case None
      with md Some have gd: "gd = Some dm" by (simp add: mergeDict_def)
      with p have "normalDict dm" by (simp add: partsOk_def)
      from mergeDict_self[OF this] gd Some show ?thesis by simp
    next
      case od: (Some oldd)
      from mergeDict_twice[OF partsOk_dict[OF p]] md od Some show ?thesis by simp
    qed
  qed
  have comb: "combine (mergeList gl ?ol') md = Some v1"
  proof (cases ?ml)
    case None
    have "gl = None"
    proof (cases gl)
      case (Some l)
      with p have "elems gl \<noteq> []" by (simp add: partsOk_list_nonempty)
      from mergeList_not_None[OF partsOk_noKeeps[OF p] this] None show ?thesis by blast
    qed simp
    with None v1 show ?thesis by simp
  next
    case (Some x)
    let ?x' = "if md = None then x else ListExpr (l_comments x) (l_list x) True"
    have lx: "l_list ?x' = l_list x" by simp
    note la = list_part_again[OF p Some lx]
    have again: "mergeList gl (Some ?x') = Some (ListExpr noComments (l_list x) False)"
      by (rule la(1))
    have ol': "?ol' = Some ?x'" using Some by simp
    show ?thesis
    proof (cases md)
      case None
      have gdN: "gd = None"
      proof (cases gd)
        case (Some d)
        with p have "normalDict d" by (simp add: partsOk_def)
        from mergeDict_normal_not_None[OF this] md Some None show ?thesis by blast
      qed simp
      then have "l_multi x = False" using la(3) by simp
      with la(2) have "x = ListExpr noComments (l_list x) False" by (cases x) simp
      with v1 Some None again ol' show ?thesis by (simp add: combine_def)
    next
      case md': (Some dm)
      from v1 Some md' la(2) again ol' show ?thesis by (simp add: combine_def)
    qed
  qed
  from dec dict comb show ?thesis by blast
qed

lemma mergeExpr_self:
  assumes "genValueOk v"
  shows "mergeExpr (Some v) (Some v) = Inr (Some v)"
proof (cases "isStringExpr (Some v)")
  case True
  then show ?thesis by (simp add: mergeExpr_def)
next
  case False
  from assms have "genValueOpt (Some v)" by (simp add: genValueOpt_def)
  from genValueOpt_decomp[OF this False]
  obtain gl gd where d: "exprListAndDict (Some v) = Inr (gl, gd)" and p: "partsOk gl gd"
    and c: "combine gl gd = Some v" by blast
  have c0: "combine (mergeList gl None) gd = Some v" using c by simp
  have m0: "mergeDict gd None = Inr gd" by (simp add: mergeDict_def)
  from parts_fixed[OF p m0 c0] d
  have "mergeDict gd gd = Inr gd" and "combine (mergeList gl gl) gd = Some v" by simp_all
  with d False show ?thesis by (simp add: mergeExpr_nonstring)
qed

lemma mergedOr_fixed:
  assumes g: "genValueOpt g" and m: "mergedOr g old = Some v1"
  shows "mergedOr g v1 = Some v1"
proof (cases "isStringExpr g")
  case True
  then obtain c s where gs: "g = Some (StringExpr c s)"
    by (auto simp: isStringExpr_def split: option.splits expr.splits)
  from m have "v1 = (if shouldKeep old then old else StringExpr c s)"
    by (simp add: mergedOr_def gs mergeExpr_string_keep_aux)
  then show ?thesis
    by (simp add: mergedOr_def gs mergeExpr_string_keep_aux)
next
  case False
  from genValueOpt_decomp[OF g False]
  obtain gl gd where d: "exprListAndDict g = Inr (gl, gd)" and p: "partsOk gl gd"
    and c: "combine gl gd = g" by blast
  show ?thesis
  proof (cases "mergeExpr g (Some old)")
    case (Inl err)
    with m have gv: "g = Some v1" by (simp add: mergedOr_def)
    with g have "genValueOk v1" by (simp add: genValueOpt_def)
    from mergeExpr_self[OF this] gv show ?thesis by (simp add: mergedOr_def)
  next
    case (Inr r)
    with m have r: "r = Some v1" by (simp add: mergedOr_def)
    from Inr d False obtain ol od md where od: "exprListAndDict (Some old) = Inr (ol, od)"
      and md: "mergeDict gd od = Inr md" and v: "combine (mergeList gl ol) md = r"
      by (auto simp: mergeExpr_nonstring split: sum.splits prod.splits)
    from parts_fixed[OF p md v[unfolded r]]
    obtain ol' od' where "exprListAndDict (Some v1) = Inr (ol', od')"
      "mergeDict gd od' = Inr md" "combine (mergeList gl ol') md = Some v1" by blast
    with d False show ?thesis by (simp add: mergedOr_def mergeExpr_nonstring)
  qed
qed

section \<open>A second merge of rules\<close>

lemma unnamed_named: "unnamedArgs as @ namedArgs as = as"
proof -
  have "take (length (unnamedArgs as)) as = unnamedArgs as"
    by (induction as) auto
  then show ?thesis unfolding namedArgs_def by (metis append_take_drop_id)
qed

lemma unnamedArgs_no_assign: "a \<in> set (unnamedArgs as) \<Longrightarrow> \<not> isAssign a"
  by (induction as) (auto split: if_splits)

lemma attrKey_isAssign: "attrKey a = Some k \<Longrightarrow> isAssign a"
  by (auto simp: attrKey_def isAssign_def split: expr.splits if_splits)

lemma unnamedArgs_append:
  "\<forall>a\<in>set U. \<not> isAssign a \<Longrightarrow> \<forall>a\<in>set L. isAssign a \<Longrightarrow> unnamedArgs (U @ L) = U"
proof (induction U)
  case Nil
  then show ?case by (cases L) auto
next
  case (Cons u U)
  then show ?case by simp
qed

lemma map_filter_no_keys:
  "\<forall>a\<in>set U. attrKey a = None \<Longrightarrow> List.map_filter attrKey U = []"
  by (induction U) (auto simp: List.map_filter_simps)

lemma not_assign_no_key: "\<not> isAssign a \<Longrightarrow> attrKey a = None"
  using attrKey_isAssign by (cases "attrKey a") auto

lemma newAttrs_nil: "set ks \<subseteq> set present \<Longrightarrow> newAttrs g ks present = []"
  by (induction ks arbitrary: present) auto

lemma binary_eta: "BinaryExpr (b_comments b) (b_x b) (b_op b) (b_y b) = b"
  by (cases b) simp

lemma mergedAttr_fixed:
  assumes f: "attrFixed g L (BinaryE b)" and k: "attrKey (BinaryE b) = Some k"
    and c: "c_list m = U @ L" and u: "\<forall>a\<in>set U. \<not> isAssign a"
  shows "mergedAttr g m k = [BinaryE b]"
proof -
  from f k have fa: "findAttr L k = Some b"
    and mo: "mergeableFields k \<longrightarrow> mergedOr (Attr g k) (b_y b) = Some (b_y b)"
    by (simp_all add: attrFixed_def)
  have "findAttr U k = None"
    by (rule findAttr_no_keys) (use u not_assign_no_key in auto)
  then have d: "AttrDefn m k = Some b"
    by (simp add: AttrDefn_def c findAttr_append fa)
  show ?thesis
  proof (cases "mergeableFields k")
    case False
    with d show ?thesis by (simp add: mergedAttr_def)
  next
    case True
    with mo have "mergedValueFor g b k = Some (b_y b)"
      by (simp add: mergedValueFor_def mergedOr_def)
    with d True show ?thesis by (simp add: mergedAttr_def binary_eta)
  qed
qed

lemma mergedAttrs_fixed:
  assumes c: "c_list m = U @ L" and u: "\<forall>a\<in>set U. \<not> isAssign a"
    and f: "\<forall>a\<in>set L'. attrFixed g L a"
  shows "concat (map (mergedAttr g m) (List.map_filter attrKey L')) = L'"
  using f
proof (induction L')
  case Nil
  show ?case by (simp add: List.map_filter_simps)
next
  case (Cons a L')
  from Cons.prems have fa: "attrFixed g L a" by simp
  then obtain b k where a: "a = BinaryE b" and k: "attrKey a = Some k"
    by (auto simp: attrFixed_def split: expr.splits option.splits)
  from fa a k have "mergedAttr g m k = [BinaryE b]"
    using mergedAttr_fixed[OF _ _ c u, of g b k] by simp
  with Cons a k show ?case by (simp add: List.map_filter_simps)
qed

lemma mergeRule_fixed:
  assumes c: "c_list m = U @ L" and u: "\<forall>a\<in>set U. \<not> isAssign a"
    and f: "\<forall>a\<in>set L. attrFixed g L a"
    and keys: "set (AttrKeys g) \<subseteq> set (List.map_filter attrKey L)"
  shows "mergeRule g m = Inr m"
proof -
  have la: "\<forall>a\<in>set L. isAssign a"
  proof
    fix a assume "a \<in> set L"
    with f have "attrFixed g L a" by simp
    then obtain k where "attrKey a = Some k"
      by (auto simp: attrFixed_def split: expr.splits option.splits)
    then show "isAssign a" by (rule attrKey_isAssign)
  qed
  have un: "unnamedArgs (c_list m) = U"
    unfolding c by (rule unnamedArgs_append[OF u la])
  have uk: "List.map_filter attrKey U = []"
    by (rule map_filter_no_keys) (use u not_assign_no_key in auto)
  have ak: "AttrKeys m = List.map_filter attrKey L"
    by (simp add: AttrKeys_def c map_filter_append uk)
  have at: "concat (map (mergedAttr g m) (AttrKeys m)) = L"
    unfolding ak by (rule mergedAttrs_fixed[OF c u f])
  have ma: "mergedArgs g m = U @ L"
    by (simp add: mergedArgs_def un at)
  have nw: "newAttrs g (AttrKeys g) (List.map_filter attrKey (U @ L)) = []"
    by (rule newAttrs_nil) (simp add: map_filter_append uk keys)
  have "mergeRule g m = Inr (CallExpr (c_comments m) (c_x m) (c_list m))"
    unfolding mergeRule_eq ma nw c by simp
  then show ?thesis by (cases m) simp
qed

lemma mem_map_filter: "x \<in> set xs \<Longrightarrow> f x = Some y \<Longrightarrow> y \<in> set (List.map_filter f xs)"
  by (induction xs) (auto simp: List.map_filter_simps split: option.splits)

lemma findAttr_distinct:
  "distinct (List.map_filter attrKey L) \<Longrightarrow> BinaryE b \<in> set L \<Longrightarrow>
   attrKey (BinaryE b) = Some k \<Longrightarrow> findAttr L k = Some b"
proof (induction L)
  case Nil
  then show ?case by simp
next
  case (Cons a L)
  show ?case
  proof (cases "a = BinaryE b")
    case True
    with Cons.prems show ?thesis by simp
  next
    case False
    with Cons.prems have mem: "BinaryE b \<in> set L" by simp
    then have kin: "k \<in> set (List.map_filter attrKey L)"
      using Cons.prems(3) by (rule mem_map_filter)
    show ?thesis
    proof (cases "attrKey a")
      case None
      with Cons mem show ?thesis by (simp add: List.map_filter_simps)
    next
      case (Some k')
      with Cons.prems(1) kin have "k' \<noteq> k" and "distinct (List.map_filter attrKey L)"
        by (auto simp: List.map_filter_simps)
      with Some Cons.IH mem Cons.prems(3) show ?thesis by simp
    qed
  qed
qed

lemma mergedOr_self: "genValueOk v \<Longrightarrow> mergedOr (Some v) v = Some v"
  by (simp add: mergedOr_def mergeExpr_self)

lemma keys_named: "AttrKeys g = List.map_filter attrKey (namedArgs (c_list g))"
proof -
  have "List.map_filter attrKey (unnamedArgs (c_list g)) = []"
    by (rule map_filter_no_keys) (simp add: attrKey_unnamed)
  then have "List.map_filter attrKey (unnamedArgs (c_list g) @ namedArgs (c_list g)) =
               List.map_filter attrKey (namedArgs (c_list g))"
    by (simp add: map_filter_append)
  then show ?thesis by (simp add: AttrKeys_def unnamed_named)
qed

lemma findAttr_named: "findAttr (c_list g) k = findAttr (namedArgs (c_list g)) k"
proof -
  have "findAttr (unnamedArgs (c_list g)) k = None"
    by (rule findAttr_no_keys) (simp add: attrKey_unnamed)
  then have "findAttr (unnamedArgs (c_list g) @ namedArgs (c_list g)) k =
               findAttr (namedArgs (c_list g)) k"
    by (simp add: findAttr_append)
  then show ?thesis by (simp add: unnamed_named)
qed

lemma genRuleOk_attr:
  assumes ok: "genRuleOk g" and a: "BinaryE b \<in> set (namedArgs (c_list g))"
    and k: "attrKey (BinaryE b) = Some k"
  shows "AttrDefn g k = Some b" and "mergeableFields k \<Longrightarrow> genValueOk (b_y b)"
proof -
  from ok have d: "distinct (List.map_filter attrKey (namedArgs (c_list g)))"
    and all: "list_all genAttrOk (namedArgs (c_list g))" by (simp_all add: genRuleOk_def)
  show "AttrDefn g k = Some b"
    unfolding AttrDefn_def findAttr_named by (rule findAttr_distinct[OF d a k])
  from all a have "genAttrOk (BinaryE b)" by (simp add: list_all_iff)
  with k show "mergeableFields k \<Longrightarrow> genValueOk (b_y b)" by (simp add: genAttrOk_def)
qed

lemma genRuleOk_value:
  assumes ok: "genRuleOk g" and v: "Attr g k = Some v" and mk: "mergeableFields k"
  shows "genValueOk v"
proof -
  from v obtain b where d: "AttrDefn g k = Some b" and vb: "v = b_y b"
    by (auto simp: Attr_def)
  from d have f: "findAttr (namedArgs (c_list g)) k = Some b"
    by (simp add: AttrDefn_def findAttr_named)
  from findAttr_Some_attrKey[OF f] genRuleOk_attr(2)[OF ok _ _ mk] vb show ?thesis by simp
qed

lemma genRuleOk_opt: "genRuleOk g \<Longrightarrow> mergeableFields k \<Longrightarrow> genValueOpt (Attr g k)"
  by (cases "Attr g k") (auto simp: genValueOpt_def genRuleOk_value)

lemma mergeRule_self:
  assumes ok: "genRuleOk g"
  shows "mergeRule g g = Inr g"
proof (rule mergeRule_fixed)
  let ?U = "unnamedArgs (c_list g)" and ?L = "namedArgs (c_list g)"
  show "c_list g = ?U @ ?L" by (simp add: unnamed_named)
  show "\<forall>a\<in>set ?U. \<not> isAssign a" by (simp add: unnamedArgs_no_assign)
  show "set (AttrKeys g) \<subseteq> set (List.map_filter attrKey ?L)" by (simp add: keys_named)
  show "\<forall>a\<in>set ?L. attrFixed g ?L a"
  proof
    fix a assume a: "a \<in> set ?L"
    from ok a have "genAttrOk a" by (simp add: genRuleOk_def list_all_iff)
    then obtain b k where ab: "a = BinaryE b" and k: "attrKey a = Some k"
      by (auto simp: genAttrOk_def split: expr.splits option.splits)
    from a ab have mem: "BinaryE b \<in> set ?L" by simp
    from k ab have kb: "attrKey (BinaryE b) = Some k" by simp
    have d: "AttrDefn g k = Some b" by (rule genRuleOk_attr(1)[OF ok mem kb])
    then have f: "findAttr ?L k = Some b" by (simp add: AttrDefn_def findAttr_named)
    have "mergedOr (Attr g k) (b_y b) = Some (b_y b)" if "mergeableFields k"
      using genRuleOk_attr(2)[OF ok mem kb that] d by (simp add: Attr_def mergedOr_self)
    with f kb show "attrFixed g ?L a" by (simp add: attrFixed_def ab)
  qed
qed

lemma newAttrs_mem:
  "a \<in> set (newAttrs g ks present) \<Longrightarrow> \<exists>k\<in>set ks. k \<notin> set present \<and> a = newAttr g k"
proof (induction ks arbitrary: present)
  case Nil
  then show ?case by simp
next
  case (Cons k ks)
  then show ?case by (fastforce split: if_splits)
qed

lemma newAttrs_keys:
  "k \<in> set ks \<Longrightarrow> k \<in> set present \<or> k \<in> set (List.map_filter attrKey (newAttrs g ks present))"
proof (induction ks arbitrary: present)
  case Nil
  then show ?case by simp
next
  case (Cons k' ks)
  show ?case
  proof (cases "k' \<in> set present")
    case True
    with Cons show ?thesis by auto
  next
    case False
    show ?thesis
    proof (cases "k = k'")
      case True
      with False show ?thesis by (simp add: List.map_filter_simps)
    next
      case False
      with Cons.prems have "k \<in> set ks" by simp
      from Cons.IH[OF this, of "present @ [k']"] False \<open>k' \<notin> set present\<close>
      show ?thesis by (auto simp: List.map_filter_simps)
    qed
  qed
qed

lemma findAttr_newAttrs_mem:
  assumes "newAttr g k \<in> set (newAttrs g ks present)"
  shows "\<exists>b. findAttr (newAttrs g ks present) k = Some b \<and> BinaryE b = newAttr g k"
proof -
  let ?N = "newAttrs g ks present"
  from assms have "k \<in> set (List.map_filter attrKey ?N)"
    by (rule mem_map_filter) simp
  then obtain b where f: "findAttr ?N k = Some b"
    using findAttr_None_iff[of ?N k] by (cases "findAttr ?N k") auto
  from findAttr_Some_attrKey[OF f] have kb: "attrKey (BinaryE b) = Some k"
    and mem: "BinaryE b \<in> set ?N" by simp_all
  from newAttrs_mem[OF mem] obtain k' where "BinaryE b = newAttr g k'" by blast
  with kb have "BinaryE b = newAttr g k" by (metis attrKey_newAttr option.inject)
  with f show ?thesis by blast
qed

lemma mergeRule_twice:
  assumes ok: "genRuleOk g" and m: "mergeRule g old = Inr m1"
  shows "mergeRule g m1 = Inr m1"
proof (rule mergeRule_fixed)
  let ?U = "unnamedArgs (c_list old)"
  let ?A = "concat (map (mergedAttr g old) (AttrKeys old))"
  let ?N = "newAttrs g (AttrKeys g) (List.map_filter attrKey (?U @ ?A))"
  let ?L = "?A @ ?N"
  from m have m1: "m1 = CallExpr (c_comments old) (c_x old) (?U @ ?A @ ?N)"
    by (simp add: mergeRule_eq mergedArgs_def)
  show "c_list m1 = ?U @ ?L" by (simp add: m1)
  show "\<forall>a\<in>set ?U. \<not> isAssign a" by (simp add: unnamedArgs_no_assign)
  have uk: "List.map_filter attrKey ?U = []"
    by (rule map_filter_no_keys) (simp add: attrKey_unnamed)
  show "set (AttrKeys g) \<subseteq> set (List.map_filter attrKey ?L)"
  proof
    fix k assume "k \<in> set (AttrKeys g)"
    from newAttrs_keys[OF this, of "List.map_filter attrKey (?U @ ?A)" g]
    show "k \<in> set (List.map_filter attrKey ?L)"
      by (auto simp: map_filter_append uk)
  qed
  show "\<forall>a\<in>set ?L. attrFixed g ?L a"
  proof
    fix a assume "a \<in> set ?L"
    then consider (old) "a \<in> set ?A" | (new) "a \<in> set ?N" by auto
    then show "attrFixed g ?L a"
    proof cases
      case old
      then obtain k where kin: "k \<in> set (AttrKeys old)" and ak: "a \<in> set (mergedAttr g old k)"
        by auto
      from kin obtain oa where d: "AttrDefn old k = Some oa"
        using AttrDefn_None_iff[of old k] by (cases "AttrDefn old k") auto
      have key: "attrKey a = Some k" by (rule attrKey_mergedAttr[OF ak])
      then obtain b where ab: "a = BinaryE b" using attrKey_Some_Binary by blast
      have single: "mergedAttr g old k = [BinaryE b]"
      proof (cases "mergeableFields k")
        case False
        with ak d ab show ?thesis by (simp add: mergedAttr_def)
      next
        case True
        show ?thesis
        proof (cases "mergedValueFor g oa k")
          case None
          with True ak d show ?thesis by (simp add: mergedAttr_def)
        next
          case (Some e)
          with True ak d ab show ?thesis by (simp add: mergedAttr_def)
        qed
      qed
      have "findAttr ?A k = Some b" by (rule findAttr_mergedAttrs_single[OF single kin])
      then have f: "findAttr ?L k = Some b" by (simp add: findAttr_append)
      have "mergedOr (Attr g k) (b_y b) = Some (b_y b)" if mk: "mergeableFields k"
      proof -
        have mv: "mergedValueFor g oa k = Some (b_y b)"
        proof (cases "mergedValueFor g oa k")
          case None
          with single d mk show ?thesis by (simp add: mergedAttr_def)
        next
          case (Some e)
          with single d mk show ?thesis by (auto simp: mergedAttr_def)
        qed
        then have "mergedOr (Attr g k) (b_y oa) = Some (b_y b)"
          by (simp add: mergedValueFor_def mergedOr_def)
        with genRuleOk_opt[OF ok mk] show ?thesis by (rule mergedOr_fixed)
      qed
      with f key ab show ?thesis by (simp add: attrFixed_def)
    next
      case new
      from newAttrs_mem[OF new] obtain k where kin: "k \<in> set (AttrKeys g)"
        and np: "k \<notin> set (List.map_filter attrKey (?U @ ?A))" and an: "a = newAttr g k" by blast
      from np have "k \<notin> set (List.map_filter attrKey ?A)" by (simp add: map_filter_append)
      then have fa: "findAttr ?A k = None" by (simp add: findAttr_None_iff)
      from new an findAttr_newAttrs_mem[of g k]
      obtain b where fn: "findAttr ?N k = Some b" and ab: "BinaryE b = newAttr g k" by blast
      from fa fn have f: "findAttr ?L k = Some b" by (simp add: findAttr_append)
      from kin obtain v where v: "Attr g k = Some v"
        using Attr_None_iff[of g k] by (cases "Attr g k") auto
      with ab have yv: "b_y b = v" by (simp add: newAttr_def)
      have "mergedOr (Attr g k) (b_y b) = Some (b_y b)" if mk: "mergeableFields k"
        using genRuleOk_value[OF ok v mk] v yv by (simp add: mergedOr_self)
      moreover have "attrKey (BinaryE b) = Some k" unfolding ab by simp
      moreover have "a = BinaryE b" using an ab by simp
      ultimately show ?thesis using f by (simp add: attrFixed_def)
    qed
  qed
qed

section \<open>A second merge of load statements\<close>

lemma find_append:
  "find P (xs @ ys) = (case find P xs of None \<Rightarrow> find P ys | Some x \<Rightarrow> Some x)"
  by (induction xs) auto

lemma firstSym_Cons:
  "firstSym (v # vs) k = (if stringValue v = k then Some v else firstSym vs k)"
  by (simp add: firstSym_def)

lemma map_of_oldVals:
  "map_of (oldVals f vs vals) k =
     (case map_of vals k of
        Some v \<Rightarrow> Some v
      | None \<Rightarrow> if ruleUsed k f then firstSym vs k else None)"
proof (induction vs arbitrary: vals)
  case Nil
  show ?case by (simp add: firstSym_def split: option.splits)
next
  case (Cons v vs)
  let ?vals = "AList.update (stringValue v) v vals"
  show ?case
  proof (cases "map_of vals (stringValue v) = None \<and> ruleUsed (stringValue v) f")
    case True
    then have e: "oldVals f (v # vs) vals = oldVals f vs ?vals" by simp
    show ?thesis
    proof (cases "stringValue v = k")
      case same: True
      have "map_of ?vals k = Some v" using same by (simp add: update_conv)
      moreover have "map_of vals k = None" "ruleUsed k f" using True same by auto
      ultimately show ?thesis unfolding e Cons.IH firstSym_Cons using same by simp
    next
      case False
      then have "map_of ?vals k = map_of vals k" by (auto simp: update_conv)
      with False show ?thesis unfolding e Cons.IH firstSym_Cons by simp
    qed
  next
    case False
    then have e: "oldVals f (v # vs) vals = oldVals f vs vals" by auto
    show ?thesis
    proof (cases "stringValue v = k")
      case True
      with False show ?thesis
        unfolding e Cons.IH firstSym_Cons by (auto split: option.splits)
    next
      case False
      then show ?thesis unfolding e Cons.IH firstSym_Cons by simp
    qed
  qed
qed

lemma firstSym_map:
  "distinct ks \<Longrightarrow> \<forall>k\<in>set ks. stringValue (h k) = k \<Longrightarrow>
   firstSym (map h ks) k = (if k \<in> set ks then Some (h k) else None)"
  by (induction ks) (auto simp: firstSym_Cons firstSym_def)

lemma valsOk_valsOf:
  "valsOk (set (tl (c_list gen)) \<union> set (tl (c_list old))) (valsOf gen old f)"
  unfolding valsOf_def by (intro valsOk_oldVals valsOk_genVals) (auto simp: valsOk_def)

lemma mergeLoad_eq:
  assumes "c_list gen \<noteq> []" and "c_list old \<noteq> []"
  shows "mergeLoad gen old f =
           Inr (CallExpr (c_comments old) (c_x old)
                  (hd (c_list old) #
                   map (\<lambda>k. the (map_of (valsOf gen old f) k)) (sort (map fst (valsOf gen old f)))))"
proof -
  have mf: "List.map_filter (map_of (valsOf gen old f)) (sort (map fst (valsOf gen old f))) =
              map (\<lambda>k. the (map_of (valsOf gen old f) k)) (sort (map fst (valsOf gen old f)))"
    by (rule map_filter_map_of) simp
  obtain p rest where old: "c_list old = p # rest"
    using assms(2) by (cases "c_list old") auto
  show ?thesis
    using assms(1) mf by (simp add: mergeLoad_def Let_def old valsOf_def)
qed

lemma map_of_dom_keys: "(map_of vals k \<noteq> None) = (k \<in> set (map fst vals))"
  by (simp add: map_of_eq_None_iff)

lemma sort_keys_cong:
  assumes d1: "distinct (map fst v1)" and d2: "distinct (map fst v2)"
    and e: "\<And>k. map_of v1 k = map_of v2 k"
  shows "sort (map fst v1) = sort (map fst v2)"
proof (rule sorted_distinct_set_unique)
  show "sorted (sort (map fst v1))" "sorted (sort (map fst v2))" by simp_all
  show "distinct (sort (map fst v1))" "distinct (sort (map fst v2))" using d1 d2 by simp_all
  have "(k \<in> set (map fst v1)) = (k \<in> set (map fst v2))" for k
    unfolding map_of_dom_keys[symmetric] e ..
  then have "set (map fst v1) = set (map fst v2)" by (rule set_eqI)
  then show "set (sort (map fst v1)) = set (sort (map fst v2))" by (simp only: set_sort)
qed

lemma mergeLoad_twice:
  assumes m: "mergeLoad g old f = Inr s"
    and mono: "\<And>n. ruleUsed n f \<Longrightarrow> ruleUsed n f'"
  shows "mergeLoad g s f' = Inr s"
proof -
  from m have gne: "c_list g \<noteq> []" and one: "c_list old \<noteq> []"
    by (auto simp: mergeLoad_def split: if_splits)
  let ?v1 = "valsOf g old f"
  let ?keys = "sort (map fst ?v1)"
  let ?h = "\<lambda>k. the (map_of ?v1 k)"
  let ?syms = "map ?h ?keys"
  from m mergeLoad_eq[OF gne one, of f]
  have s: "s = CallExpr (c_comments old) (c_x old) (hd (c_list old) # ?syms)" by simp
  then have sne: "c_list s \<noteq> []" and tls: "tl (c_list s) = ?syms" by simp_all
  let ?v2 = "valsOf g s f'"
  let ?GV = "genVals (tl (c_list g)) []"
  have ok1: "valsOk (set (tl (c_list g)) \<union> set (tl (c_list old))) ?v1" by (rule valsOk_valsOf)
  have ok2: "valsOk (set (tl (c_list g)) \<union> set (tl (c_list s))) ?v2" by (rule valsOk_valsOf)
  have d1: "distinct (map fst ?v1)" using ok1 by (simp add: valsOk_def)
  have d2: "distinct (map fst ?v2)" using ok2 by (simp add: valsOk_def)
  have hk: "\<forall>k\<in>set ?keys. stringValue (?h k) = k"
    using valsOk_lookup[OF ok1] by auto
  have fs: "firstSym ?syms k = map_of ?v1 k" for k
  proof -
    have "firstSym ?syms k = (if k \<in> set ?keys then Some (?h k) else None)"
      by (rule firstSym_map) (use d1 hk in simp_all)
    also have "\<dots> = map_of ?v1 k"
      using map_of_dom_keys[of ?v1 k] by (cases "map_of ?v1 k") auto
    finally show ?thesis .
  qed
  have e: "map_of ?v2 k = map_of ?v1 k" for k
  proof (cases "map_of ?GV k")
    case (Some v)
    then show ?thesis by (simp add: valsOf_def map_of_oldVals)
  next
    case None
    have v1: "map_of ?v1 k = (if ruleUsed k f then firstSym (tl (c_list old)) k else None)"
      using None by (simp add: valsOf_def map_of_oldVals)
    have "map_of ?v2 k = (if ruleUsed k f' then firstSym (tl (c_list s)) k else None)"
      using None by (simp add: valsOf_def map_of_oldVals)
    then have v2: "map_of ?v2 k = (if ruleUsed k f' then map_of ?v1 k else None)"
      unfolding tls fs .
    show ?thesis
    proof (cases "ruleUsed k f'")
      case True
      with v2 show ?thesis by simp
    next
      case False
      with mono have "\<not> ruleUsed k f" by blast
      with v1 v2 False show ?thesis by simp
    qed
  qed
  have keys: "sort (map fst ?v2) = ?keys" by (rule sort_keys_cong[OF d2 d1 e])
  have "map (\<lambda>k. the (map_of ?v2 k)) ?keys = ?syms" by (simp add: e)
  with mergeLoad_eq[OF gne sne, of f'] keys
  have "mergeLoad g s f' =
          Inr (CallExpr (c_comments s) (c_x s) (hd (c_list s) # ?syms))" by simp
  also have "\<dots> = Inr s" by (simp add: s)
  finally show ?thesis .
qed

lemma map_of_genVals:
  "map_of (genVals vs vals) k =
     (case firstSym (rev vs) k of Some v \<Rightarrow> Some v | None \<Rightarrow> map_of vals k)"
proof (induction vs arbitrary: vals)
  case Nil
  show ?case by (simp add: firstSym_def)
next
  case (Cons v vs)
  show ?case
    by (cases "firstSym (rev vs) k") (auto simp: Cons.IH update_conv firstSym_def find_append)
qed

lemma firstSym_distinct:
  "distinct (map stringValue vs) \<Longrightarrow> v \<in> set vs \<Longrightarrow> firstSym (rev vs) (stringValue v) = Some v"
proof (induction vs)
  case Nil
  then show ?case by simp
next
  case (Cons a vs)
  show ?case
  proof (cases "v = a")
    case True
    with Cons.prems have "\<forall>x\<in>set vs. stringValue x \<noteq> stringValue a" by (auto simp: image_iff)
    then have "find (\<lambda>x. stringValue x = stringValue a) (rev vs) = None"
      by (simp add: find_None_iff)
    with True show ?thesis by (simp add: firstSym_def find_append)
  next
    case False
    with Cons show ?thesis by (auto simp: firstSym_def find_append)
  qed
qed

lemma map_filter_values:
  "\<forall>v\<in>set vs. m (stringValue v) = Some v \<Longrightarrow> List.map_filter m (map stringValue vs) = vs"
  by (induction vs) (auto simp: List.map_filter_simps)

lemma oldVals_present:
  "stringValue ` set vs \<subseteq> fst ` set vals \<Longrightarrow> oldVals f vs vals = vals"
  by (induction vs) (auto simp: map_of_eq_None_iff)

lemma mergeLoad_self:
  assumes ok: "genLoadOk g"
  shows "mergeLoad g g f = Inr g"
proof -
  let ?vs = "tl (c_list g)"
  let ?GV = "genVals ?vs []"
  from ok have ne: "c_list g \<noteq> []" and st: "sorted_wrt (<) (map stringValue ?vs)"
    by (simp_all add: genLoadOk_def)
  from st have dist: "distinct (map stringValue ?vs)" and srt: "sorted (map stringValue ?vs)"
    by (simp_all add: strict_sorted_iff)
  have keys: "fst ` set ?GV = stringValue ` set ?vs" by (simp add: keys_genVals)
  have vals: "oldVals f ?vs ?GV = ?GV" by (rule oldVals_present) (simp add: keys)
  have okv: "valsOk (set ?vs) ?GV" by (rule valsOk_genVals) (simp_all add: valsOk_def)
  have sk: "sort (map fst ?GV) = map stringValue ?vs"
  proof (rule sorted_distinct_set_unique)
    show "sorted (sort (map fst ?GV))" by simp
    show "distinct (sort (map fst ?GV))" using okv by (simp add: valsOk_def)
    show "sorted (map stringValue ?vs)" by (rule srt)
    show "distinct (map stringValue ?vs)" by (rule dist)
    show "set (sort (map fst ?GV)) = set (map stringValue ?vs)" using keys by simp
  qed
  have look: "\<forall>v\<in>set ?vs. map_of ?GV (stringValue v) = Some v"
    by (simp add: map_of_genVals firstSym_distinct[OF dist])
  have "List.map_filter (map_of ?GV) (map stringValue ?vs) = ?vs"
    by (rule map_filter_values[OF look])
  with ne vals sk have "mergeLoad g g f =
      Inr (CallExpr (c_comments g) (c_x g) (take 1 (c_list g) @ ?vs))"
    by (simp add: mergeLoad_def Let_def)
  also have "take 1 (c_list g) @ ?vs = c_list g" using ne by (cases "c_list g") simp_all
  finally show ?thesis by (cases g) simp
qed

section \<open>A second merge of files\<close>

lemma matches_matcherOf:
  "matcherOf g = Some m \<Longrightarrow> matches m c = (matcherOf c = Some m)"
  by (cases m) (auto simp: matcherOf_def split: if_splits)

lemma firstPos_None: "(firstPos x ys = None) = (x \<notin> set ys)"
  by (induction ys) auto

lemma firstPos_Some:
  "firstPos x ys = Some t \<Longrightarrow> t < length ys \<and> ys ! t = x"
  by (induction ys arbitrary: t) (auto split: if_splits)

lemma firstPos_append:
  "firstPos x (ys @ zs) =
     (case firstPos x ys of
        Some t \<Rightarrow> Some t
      | None \<Rightarrow> map_option (\<lambda>t. length ys + t) (firstPos x zs))"
  by (induction ys) (cases "firstPos x zs"; auto split: option.splits)+

lemma firstPos_distinct:
  "distinct zs \<Longrightarrow> t < length zs \<Longrightarrow> firstPos (zs ! t) zs = Some t"
proof (induction zs arbitrary: t)
  case Nil
  then show ?case by simp
next
  case (Cons z zs)
  then show ?case by (cases t) auto
qed

lemma firstMatch_skip:
  assumes "matcherOf g = Some m" and "stmtMatcher x \<noteq> Some m"
  shows "firstMatch m (x # xs) i = firstMatch m xs (Suc i)"
  using assms(2) matches_matcherOf[OF assms(1)]
  by (cases x) (simp_all add: stmtMatcher_def)

lemma firstMatch_eq:
  assumes "matcherOf g = Some m"
  shows "firstMatch m xs i =
           (case firstPos (Some m) (map stmtMatcher xs) of
              None \<Rightarrow> None
            | Some t \<Rightarrow> (case xs ! t of CallE c \<Rightarrow> Some (i + t, c) | _ \<Rightarrow> None))"
proof (induction xs arbitrary: i)
  case Nil
  show ?case by simp
next
  case (Cons x xs)
  show ?case
  proof (cases "stmtMatcher x = Some m")
    case True
    then obtain c where "x = CallE c" and "matcherOf c = Some m"
      by (cases x) (simp_all add: stmtMatcher_def)
    with matches_matcherOf[OF assms, of c] True show ?thesis by simp
  next
    case False
    have "firstMatch m (x # xs) i = firstMatch m xs (Suc i)"
      by (rule firstMatch_skip[OF assms False])
    with False show ?thesis
      unfolding Cons.IH by (auto split: option.splits expr.splits)
  qed
qed

lemma match_eq:
  "match f g =
     (case matcherOf g of
        None \<Rightarrow> None
      | Some m \<Rightarrow>
          (case firstPos (Some m) (map stmtMatcher (Stmt f)) of
             None \<Rightarrow> None
           | Some t \<Rightarrow> (case Stmt f ! t of CallE c \<Rightarrow> Some (t, c) | _ \<Rightarrow> None)))"
proof (cases "matcherOf g")
  case None
  then show ?thesis by (simp add: match_def matcherOf_def split: if_splits)
next
  case (Some m)
  have "match f g = firstMatch m (Stmt f) 0"
    using Some by (auto simp: match_def matcherOf_def split: if_splits)
  with firstMatch_eq[OF Some, of "Stmt f" 0] Some show ?thesis
    by (auto split: option.splits expr.splits)
qed

lemma match_unmatched:
  "matcherOf g = Some m \<Longrightarrow> Some m \<notin> set (map stmtMatcher (Stmt f)) \<Longrightarrow> match f g = None"
  using firstPos_None[of "Some m" "map stmtMatcher (Stmt f)"] by (simp add: match_eq)

lemma match_matched:
  assumes g: "matcherOf g = Some m" and p: "firstPos (Some m) (map stmtMatcher (Stmt f)) = Some t"
  shows "\<exists>c. Stmt f ! t = CallE c \<and> matcherOf c = Some m \<and> match f g = Some (t, c) \<and> t < length (Stmt f)"
proof -
  from firstPos_Some[OF p] have t: "t < length (Stmt f)"
    and "map stmtMatcher (Stmt f) ! t = Some m" by simp_all
  then have "stmtMatcher (Stmt f ! t) = Some m" by simp
  then obtain c where c: "Stmt f ! t = CallE c" and mc: "matcherOf c = Some m"
    by (cases "Stmt f ! t") (auto simp: stmtMatcher_def)
  with g p t show ?thesis by (simp add: match_eq)
qed

lemma newAttrs_contains:
  "k \<in> set ks \<Longrightarrow> k \<notin> set present \<Longrightarrow> newAttr g k \<in> set (newAttrs g ks present)"
proof (induction ks arbitrary: present)
  case Nil
  then show ?case by simp
next
  case (Cons k' ks)
  show ?case
  proof (cases "k' \<in> set present")
    case True
    with Cons show ?thesis by auto
  next
    case False
    show ?thesis
    proof (cases "k = k'")
      case True
      with False show ?thesis by simp
    next
      case ne: False
      with Cons.prems have "k \<in> set ks" "k \<notin> set (present @ [k'])" by auto
      from Cons.IH[OF this] False show ?thesis by simp
    qed
  qed
qed

lemma mergeRule_Attr_unmergeable:
  assumes m: "mergeRule g old = Inr m1" and nm: "\<not> mergeableFields k"
  shows "Attr m1 k = (case Attr old k of Some v \<Rightarrow> Some v | None \<Rightarrow> Attr g k)"
proof -
  let ?U = "unnamedArgs (c_list old)"
  let ?A = "concat (map (mergedAttr g old) (AttrKeys old))"
  let ?N = "newAttrs g (AttrKeys g) (List.map_filter attrKey (?U @ ?A))"
  from m have m1: "c_list m1 = ?U @ ?A @ ?N"
    by (auto simp: mergeRule_eq mergedArgs_def)
  have fu: "findAttr ?U k = None"
    by (rule findAttr_no_keys) (simp add: attrKey_unnamed)
  have uk: "List.map_filter attrKey ?U = []"
    by (rule map_filter_no_keys) (simp add: attrKey_unnamed)
  show ?thesis
  proof (cases "AttrDefn old k")
    case (Some oa)
    then have kin: "k \<in> set (AttrKeys old)" using AttrDefn_None_iff[of old k] by auto
    from Some nm have "mergedAttr g old k = [BinaryE oa]" by (simp add: mergedAttr_def)
    from findAttr_mergedAttrs_single[OF this kin] have "findAttr ?A k = Some oa" .
    with fu Some show ?thesis by (simp add: Attr_def AttrDefn_def m1 findAttr_append)
  next
    case None
    then have "mergedAttr g old k = []" by (simp add: mergedAttr_def)
    from findAttr_mergedAttrs_empty[OF this] have fa: "findAttr ?A k = None" .
    then have np: "k \<notin> set (List.map_filter attrKey (?U @ ?A))"
      by (simp add: map_filter_append uk findAttr_None_iff)
    have "map_option b_y (findAttr ?N k) = Attr g k"
    proof (cases "k \<in> set (AttrKeys g)")
      case False
      then have "findAttr ?N k = None" by (rule findAttr_newAttrs)
      moreover from False have "Attr g k = None" by (simp add: Attr_None_iff)
      ultimately show ?thesis by simp
    next
      case True
      from newAttrs_contains[OF True np, of g] findAttr_newAttrs_mem[of g k]
      obtain b where fn: "findAttr ?N k = Some b" and ab: "BinaryE b = newAttr g k" by blast
      from True obtain v where v: "Attr g k = Some v"
        using Attr_None_iff[of g k] by (cases "Attr g k") auto
      with ab have "b_y b = v" by (simp add: newAttr_def)
      with fn v show ?thesis by simp
    qed
    with fu fa None show ?thesis by (simp add: Attr_def AttrDefn_def m1 findAttr_append)
  qed
qed

lemma mergeRule_Kind: "mergeRule g old = Inr m1 \<Longrightarrow> Kind m1 = Kind old"
  by (auto simp: mergeRule_eq Kind_def)

lemma mergeRule_comments: "mergeRule g old = Inr m1 \<Longrightarrow> c_comments m1 = c_comments old"
  by (auto simp: mergeRule_eq)

lemma mergeRule_Name:
  assumes m: "mergeRule g old = Inr m1" and n: "Name g = Name old"
  shows "Name m1 = Name old"
proof -
  have "\<not> mergeableFields ''name''" by (simp add: mergeableFields_def)
  from mergeRule_Attr_unmergeable[OF m this]
  have a: "Attr m1 ''name'' = (case Attr old ''name'' of Some v \<Rightarrow> Some v | None \<Rightarrow> Attr g ''name'')" .
  show ?thesis
  proof (cases "Attr old ''name''")
    case (Some v)
    with a show ?thesis by (simp add: Name_def AttrString_def)
  next
    case None
    with a have "Name m1 = Name g" by (simp add: Name_def AttrString_def)
    with n show ?thesis by simp
  qed
qed

lemma mergeLoad_props:
  assumes "mergeLoad g old f = Inr m1"
  shows "Kind m1 = Kind old" "c_comments m1 = c_comments old"
    "c_list m1 \<noteq> []" "hd (c_list m1) = hd (c_list old)" "c_list g \<noteq> []" "c_list old \<noteq> []"
proof -
  from assms have gne: "c_list g \<noteq> []" and one: "c_list old \<noteq> []"
    by (auto simp: mergeLoad_def split: if_splits)
  from assms mergeLoad_eq[OF gne one, of f]
  have "m1 = CallExpr (c_comments old) (c_x old)
                  (hd (c_list old) #
                   map (\<lambda>k. the (map_of (valsOf g old f) k)) (sort (map fst (valsOf g old f))))"
    by simp
  then show "Kind m1 = Kind old" "c_comments m1 = c_comments old"
    "c_list m1 \<noteq> []" "hd (c_list m1) = hd (c_list old)" by (simp_all add: Kind_def)
  show "c_list g \<noteq> []" "c_list old \<noteq> []" by (rule gne, rule one)
qed

lemma mergeMatched_shape:
  assumes m: "mergeMatched g old f = Inr m1" and mg: "matcherOf g = Some mt"
    and mo: "matcherOf old = Some mt"
  shows "shape (CallE m1) = shape (CallE old)"
proof (cases "Kind old = ''load''")
  case True
  with m have ml: "mergeLoad g old f = Inr m1" by (simp add: mergeMatched_def)
  from mergeLoad_props[OF ml] True show ?thesis
    by (simp add: shape_def stmtMatcher_def stmtKind_def matcherOf_def)
next
  case False
  with m have mr: "mergeRule g old = Inr m1" by (simp add: mergeMatched_def)
  from False mo mg have "Name g = Name old"
    by (auto simp: matcherOf_def split: if_splits)
  from mergeRule_Name[OF mr this] mergeRule_Kind[OF mr] mergeRule_comments[OF mr] False
  show ?thesis
    by (simp add: shape_def stmtMatcher_def stmtKind_def matcherOf_def)
qed

lemma shape_update:
  assumes "t < length xs" and "shape y = shape (xs ! t)"
  shows "map shape (xs[t := y]) = map shape xs"
  using assms by (simp add: map_update list_update_same_conv)

lemma shape_matchers: "map shape xs = map shape ys \<Longrightarrow> map stmtMatcher xs = map stmtMatcher ys"
proof -
  assume "map shape xs = map shape ys"
  then have "map (fst \<circ> shape) xs = map (fst \<circ> shape) ys" by (metis map_map)
  moreover have "fst \<circ> shape = stmtMatcher" by (rule ext) (simp add: shape_def)
  ultimately show ?thesis by simp
qed

lemma shape_kinds: "map shape xs = map shape ys \<Longrightarrow> map stmtKind xs = map stmtKind ys"
proof -
  assume "map shape xs = map shape ys"
  then have "map (fst \<circ> snd \<circ> shape) xs = map (fst \<circ> snd \<circ> shape) ys" by (metis map_map)
  moreover have "fst \<circ> snd \<circ> shape = stmtKind" by (rule ext) (simp add: shape_def)
  ultimately show ?thesis by simp
qed

lemma shape_comments: "map shape xs = map shape ys \<Longrightarrow> map Comment xs = map Comment ys"
proof -
  assume "map shape xs = map shape ys"
  then have "map (snd \<circ> snd \<circ> shape) xs = map (snd \<circ> snd \<circ> shape) ys" by (metis map_map)
  moreover have "snd \<circ> snd \<circ> shape = Comment" by (rule ext) (simp add: shape_def)
  ultimately show ?thesis by simp
qed

lemma Rules_kinds:
  "(Rules xs n \<noteq> []) = (\<exists>k. Some k \<in> set (map stmtKind xs) \<and> (n = [] \<or> k = n))"
proof (induction xs)
  case Nil
  show ?case by simp
next
  case (Cons x xs)
  show ?case
  proof (cases x)
    case (CallE c)
    with Cons show ?thesis by (auto simp: stmtKind_def)
  qed (use Cons in \<open>simp_all add: stmtKind_def\<close>)
qed

lemma ruleUsed_kinds:
  "ruleUsed n f = (\<exists>k. Some k \<in> set (map stmtKind (Stmt f)) \<and> (n = [] \<or> k = n))"
  by (simp add: ruleUsed_def Rules_kinds del: set_map)

lemma shouldIgnore_comments:
  "shouldIgnore f =
     (\<exists>c\<in>set (map Comment (Stmt f)). hasIgnore (After c) \<or> hasIgnore (Before c))"
  by (simp add: shouldIgnore_def shouldIgnoreStmts_iff)

lemma mergeStmts_Cons:
  "mergeStmts (CallE g # ss) F acc =
     (case match F g of
        None \<Rightarrow> mergeStmts ss F (acc @ [CallE g])
      | Some (i, oldRule) \<Rightarrow>
          (case mergeMatched g oldRule F of
             Inl err \<Rightarrow> Inl err
           | Inr m \<Rightarrow> mergeStmts ss (F\<lparr>Stmt := (Stmt F)[i := CallE m]\<rparr>) acc))"
  by (auto simp: mergeMatched_def split: option.splits)

lemma genStmtOk_CallE:
  assumes "genStmtOk e"
  obtains g mt where "e = CallE g" and "matcherOf g = Some mt" and "stmtMatcher e = Some mt"
proof -
  from assms obtain g where e: "e = CallE g"
    by (cases e) (simp_all add: genStmtOk_def)
  with assms have "Kind g = ''load'' \<longrightarrow> c_list g \<noteq> []"
    by (auto simp: genStmtOk_def genLoadOk_def split: if_splits)
  then have "\<exists>mt. matcherOf g = Some mt" by (simp add: matcherOf_def)
  then obtain mt where "matcherOf g = Some mt" by blast
  with e that show ?thesis by (simp add: stmtMatcher_def)
qed

lemma matcherOf_load:
  "matcherOf g = Some mt \<Longrightarrow> matcherOf c = Some mt \<Longrightarrow> (Kind c = ''load'') = (Kind g = ''load'')"
  by (auto simp: matcherOf_def split: if_splits)

lemma merged_settled:
  assumes ok: "genStmtOk (CallE g)" and mg: "matcherOf g = Some mt"
    and mo: "matcherOf c = Some mt" and m: "mergeMatched g c F = Inr m1"
  shows "settled g m1 F"
  unfolding settled_def
proof (intro allI impI)
  fix f' assume mono: "\<forall>n. ruleUsed n F \<longrightarrow> ruleUsed n f'"
  from mergeMatched_shape[OF m mg mo] have k: "Kind m1 = Kind c"
    by (simp add: shape_def stmtKind_def)
  show "mergeMatched g m1 f' = Inr m1"
  proof (cases "Kind c = ''load''")
    case True
    with m have "mergeLoad g c F = Inr m1" by (simp add: mergeMatched_def)
    from mergeLoad_twice[OF this, of f'] mono True k show ?thesis
      by (simp add: mergeMatched_def)
  next
    case False
    with m have mr: "mergeRule g c = Inr m1" by (simp add: mergeMatched_def)
    from False matcherOf_load[OF mg mo] ok have "genRuleOk g" by (simp add: genStmtOk_def)
    from mergeRule_twice[OF this mr] False k show ?thesis by (simp add: mergeMatched_def)
  qed
qed

lemma self_settled:
  assumes ok: "genStmtOk (CallE g)"
  shows "mergeMatched g g f = Inr g"
proof (cases "Kind g = ''load''")
  case True
  with ok have "genLoadOk g" by (simp add: genStmtOk_def)
  from mergeLoad_self[OF this] True show ?thesis by (simp add: mergeMatched_def)
next
  case False
  with ok have "genRuleOk g" by (simp add: genStmtOk_def)
  from mergeRule_self[OF this] False show ?thesis by (simp add: mergeMatched_def)
qed

lemma ruleUsed_shape:
  "map shape (Stmt f) = map shape (Stmt f') \<Longrightarrow> ruleUsed n f = ruleUsed n f'"
  unfolding ruleUsed_kinds by (drule shape_kinds) simp

lemma settled_shape:
  "map shape (Stmt f) = map shape (Stmt f') \<Longrightarrow> settled g s f \<Longrightarrow> settled g s f'"
  unfolding settled_def using ruleUsed_shape[of f f'] by simp

lemma first_pass:
  assumes "list_all genStmtOk gs" and "distinct (map stmtMatcher gs)"
    and "mergeStmts gs F acc = Inr (F', acc')"
  shows "passInv gs F F' \<and> acc' = acc @ unmatched F gs"
  using assms
proof (induction gs arbitrary: F acc)
  case Nil
  then show ?case by (simp add: passInv_def unmatched_def)
next
  case (Cons e gs)
  from Cons.prems(1) have ok: "genStmtOk e" and oks: "list_all genStmtOk gs" by simp_all
  from ok obtain g mt where e: "e = CallE g" and mg: "matcherOf g = Some mt"
    and sm: "stmtMatcher e = Some mt" by (rule genStmtOk_CallE)
  from Cons.prems(2) sm have nd: "Some mt \<notin> set (map stmtMatcher gs)"
    and dist: "distinct (map stmtMatcher gs)" by simp_all
  let ?ms = "map stmtMatcher (Stmt F)"
  show ?case
  proof (cases "firstPos (Some mt) ?ms")
    case None
    then have nin: "Some mt \<notin> set ?ms" by (simp add: firstPos_None)
    from match_unmatched[OF mg nin] have "match F g = None" .
    with Cons.prems(3) e have rec: "mergeStmts gs F (acc @ [e]) = Inr (F', acc')"
      by (simp add: mergeStmts_Cons del: mergeStmts.simps)
    from Cons.IH[OF oks dist rec] have inv: "passInv gs F F'"
      and acc: "acc' = (acc @ [e]) @ unmatched F gs" by simp_all
    from acc sm nin have b: "acc' = acc @ unmatched F (e # gs)" by (simp add: unmatched_def)
    have "passInv (e # gs) F F'"
      using inv None sm by (simp add: passInv_def)
    with b show ?thesis by simp
  next
    case (Some t)
    from match_matched[OF mg Some] obtain c where c: "Stmt F ! t = CallE c"
      and mo: "matcherOf c = Some mt" and mt: "match F g = Some (t, c)"
      and t: "t < length (Stmt F)" by blast
    let ?F2 = "\<lambda>m. F\<lparr>Stmt := (Stmt F)[t := CallE m]\<rparr>"
    from Cons.prems(3) e mt obtain m1 where mm: "mergeMatched g c F = Inr m1"
      and rec: "mergeStmts gs (?F2 m1) acc = Inr (F', acc')"
      by (cases "mergeMatched g c F") (simp_all add: mergeStmts_Cons del: mergeStmts.simps)
    from mergeMatched_shape[OF mm mg mo] c have "shape (CallE m1) = shape (Stmt F ! t)" by simp
    from shape_update[OF t this] have sh2: "map shape (Stmt (?F2 m1)) = map shape (Stmt F)"
      by simp
    then have ms2: "map stmtMatcher (Stmt (?F2 m1)) = ?ms" by (rule shape_matchers)
    have len2: "length (Stmt (?F2 m1)) = length (Stmt F)" by simp
    from Cons.IH[OF oks dist rec] have inv: "passInv gs (?F2 m1) F'"
      and acc: "acc' = acc @ unmatched (?F2 m1) gs" by simp_all
    from inv have a2: "map shape (Stmt F') = map shape (Stmt (?F2 m1))"
      and c2: "\<And>e' t'. e' \<in> set gs \<Longrightarrow> firstPos (stmtMatcher e') ?ms = Some t' \<Longrightarrow>
                 \<exists>g s. e' = CallE g \<and> Stmt F' ! t' = CallE s \<and> settled g s (?F2 m1)"
      and d2: "\<And>t'. t' < length (Stmt F) \<Longrightarrow>
                 (\<forall>e'\<in>set gs. firstPos (stmtMatcher e') ?ms \<noteq> Some t') \<Longrightarrow>
                 Stmt F' ! t' = Stmt (?F2 m1) ! t'"
      unfolding passInv_def ms2 len2 by blast+
    from Some have inms: "Some mt \<in> set ?ms" using firstPos_None[of "Some mt" ?ms] by auto
    have um: "unmatched (?F2 m1) gs = unmatched F gs"
      unfolding unmatched_def ms2 ..
    have b: "acc' = acc @ unmatched F (e # gs)"
      using acc sm inms unfolding um by (simp add: unmatched_def)
    have a: "map shape (Stmt F') = map shape (Stmt F)" using a2 sh2 by simp
    have free: "\<forall>e'\<in>set gs. firstPos (stmtMatcher e') ?ms \<noteq> Some t"
    proof (intro ballI notI)
      fix e' assume e': "e' \<in> set gs" and p: "firstPos (stmtMatcher e') ?ms = Some t"
      from firstPos_Some[OF p] firstPos_Some[OF Some] have "stmtMatcher e' = Some mt" by simp
      with e' nd show False by force
    qed
    have at: "Stmt F' ! t = CallE m1"
      using d2[OF t free] t by simp
    have st: "settled g m1 F"
      by (rule merged_settled[OF _ mg mo mm]) (use ok e in simp)
    have cc: "\<exists>g s. e' = CallE g \<and> Stmt F' ! t' = CallE s \<and> settled g s F"
      if e': "e' \<in> set (e # gs)" and p: "firstPos (stmtMatcher e') ?ms = Some t'" for e' t'
    proof (cases "e' = e")
      case True
      with p sm Some have "t' = t" by simp
      with True e at st show ?thesis by simp
    next
      case False
      with e' have "e' \<in> set gs" by simp
      from c2[OF this p] obtain g' s where "e' = CallE g'" "Stmt F' ! t' = CallE s"
        "settled g' s (?F2 m1)" by blast
      with settled_shape[OF sh2] show ?thesis by blast
    qed
    have dd: "Stmt F' ! t' = Stmt F ! t'"
      if t': "t' < length (Stmt F)"
        and fr: "\<forall>e'\<in>set (e # gs). firstPos (stmtMatcher e') ?ms \<noteq> Some t'" for t'
    proof -
      from fr sm Some have ne: "t' \<noteq> t" by auto
      from fr have "\<forall>e'\<in>set gs. firstPos (stmtMatcher e') ?ms \<noteq> Some t'" by simp
      from d2[OF t' this] ne show ?thesis by simp
    qed
    have "passInv (e # gs) F F'"
      unfolding passInv_def using a cc dd by blast
    with b show ?thesis by simp
  qed
qed

lemma match_Some_nth:
  assumes "match f g = Some (t, c)"
  shows "t < length (Stmt f) \<and> Stmt f ! t = CallE c"
proof -
  from assms obtain m where m: "matcherOf g = Some m"
    by (cases "matcherOf g") (simp_all add: match_eq)
  from assms m obtain t' where p: "firstPos (Some m) (map stmtMatcher (Stmt f)) = Some t'"
    by (cases "firstPos (Some m) (map stmtMatcher (Stmt f))") (simp_all add: match_eq)
  from match_matched[OF m p] assms show ?thesis by auto
qed

lemma second_pass:
  assumes "\<forall>e\<in>set gs. \<exists>g t s. e = CallE g \<and> match M g = Some (t, s) \<and> mergeMatched g s M = Inr s"
  shows "mergeStmts gs M acc = Inr (M, acc)"
  using assms
proof (induction gs)
  case Nil
  show ?case by simp
next
  case (Cons e gs)
  from Cons.prems obtain g t s where e: "e = CallE g" and m: "match M g = Some (t, s)"
    and mm: "mergeMatched g s M = Inr s" by auto
  from match_Some_nth[OF m] have "(Stmt M)[t := CallE s] = Stmt M"
    by (simp add: list_update_same_conv)
  then have "M\<lparr>Stmt := (Stmt M)[t := CallE s]\<rparr> = M" by simp
  with Cons e m mm show ?case by (simp add: mergeStmts_Cons del: mergeStmts.simps)
qed

lemma ruleUsed_append:
  assumes "map stmtKind (Stmt M) = map stmtKind (Stmt F) @ ks" and "ruleUsed n F"
  shows "ruleUsed n M"
  using assms unfolding ruleUsed_kinds by auto

lemma merge_again:
  assumes ok: "genFileOk genFile"
    and p1: "mergeStmts (Stmt genFile) F [] = Inr (F1, news)"
  shows "mergeStmts (Stmt genFile) (F1\<lparr>Stmt := Stmt F1 @ news\<rparr>) [] =
           Inr (F1\<lparr>Stmt := Stmt F1 @ news\<rparr>, [])"
proof (rule second_pass, rule ballI)
  let ?gs = "Stmt genFile"
  let ?M = "F1\<lparr>Stmt := Stmt F1 @ news\<rparr>"
  let ?ms = "map stmtMatcher (Stmt F)"
  from ok have oks: "list_all genStmtOk ?gs" and dist: "distinct (map stmtMatcher ?gs)"
    by (simp_all add: genFileOk_def)
  from first_pass[OF oks dist p1] have inv: "passInv ?gs F F1" and news: "news = unmatched F ?gs"
    by simp_all
  from inv have sh: "map shape (Stmt F1) = map shape (Stmt F)" by (simp add: passInv_def)
  then have len: "length (Stmt F1) = length (Stmt F)" by (rule map_eq_imp_length_eq)
  have msM: "map stmtMatcher (Stmt ?M) = ?ms @ map stmtMatcher news"
    using shape_matchers[OF sh] by simp
  have ksM: "map stmtKind (Stmt ?M) = map stmtKind (Stmt F) @ map stmtKind news"
    using shape_kinds[OF sh] by simp
  have mono: "\<forall>n. ruleUsed n F \<longrightarrow> ruleUsed n ?M"
    using ruleUsed_append[OF ksM] by blast
  fix e assume e: "e \<in> set ?gs"
  with oks have "genStmtOk e" by (simp add: list_all_iff)
  then obtain g mt where eg: "e = CallE g" and mg: "matcherOf g = Some mt"
    and sm: "stmtMatcher e = Some mt" by (rule genStmtOk_CallE)
  show "\<exists>g t s. e = CallE g \<and> match ?M g = Some (t, s) \<and> mergeMatched g s ?M = Inr s"
  proof (cases "firstPos (Some mt) ?ms")
    case (Some t)
    with inv e sm obtain g' s where "e = CallE g'" and at: "Stmt F1 ! t = CallE s"
      and st: "settled g' s F" unfolding passInv_def by metis
    with eg have st: "settled g s F" by simp
    from Some have p: "firstPos (Some mt) (map stmtMatcher (Stmt ?M)) = Some t"
      unfolding msM by (simp add: firstPos_append)
    from firstPos_Some[OF Some] have t: "t < length (Stmt F1)" by (simp add: len)
    from match_matched[OF mg p] obtain c where "Stmt ?M ! t = CallE c"
      and mt: "match ?M g = Some (t, c)" by blast
    with t at have "c = s" by (simp add: nth_append)
    with mt have m: "match ?M g = Some (t, s)" by simp
    from st mono have "mergeMatched g s ?M = Inr s" unfolding settled_def by blast
    with eg m show ?thesis by blast
  next
    case None
    then have nin: "Some mt \<notin> set ?ms" by (simp add: firstPos_None)
    with e sm have "e \<in> set news" unfolding news unmatched_def by simp
    then obtain t where t: "t < length news" and nt: "news ! t = e"
      by (auto simp: in_set_conv_nth)
    have "distinct (map stmtMatcher news)"
      unfolding news unmatched_def by (rule distinct_map_filter[OF dist])
    from firstPos_distinct[OF this, of t] t nt sm
    have "firstPos (Some mt) (map stmtMatcher news) = Some t" by simp
    with None have p: "firstPos (Some mt) (map stmtMatcher (Stmt ?M)) = Some (length ?ms + t)"
      unfolding msM by (simp add: firstPos_append)
    from match_matched[OF mg p] obtain c where "Stmt ?M ! (length ?ms + t) = CallE c"
      and mt: "match ?M g = Some (length ?ms + t, c)" by blast
    with nt eg have "c = g" by (simp add: nth_append len)
    with mt have m: "match ?M g = Some (length ?ms + t, g)" by simp
    from \<open>genStmtOk e\<close> eg have "mergeMatched g g ?M = Inr g" by (simp add: self_settled)
    with eg m show ?thesis by blast
  qed
qed

lemma merged_not_ignored:
  assumes ok: "genFileOk genFile"
    and p1: "mergeStmts (Stmt genFile) F [] = Inr (F1, news)"
    and ni: "\<not> shouldIgnore F"
  shows "\<not> shouldIgnore (F1\<lparr>Stmt := Stmt F1 @ news\<rparr>)"
proof -
  from ok have oks: "list_all genStmtOk (Stmt genFile)"
    and dist: "distinct (map stmtMatcher (Stmt genFile))" by (simp_all add: genFileOk_def)
  from first_pass[OF oks dist p1] have inv: "passInv (Stmt genFile) F F1"
    and news: "news = unmatched F (Stmt genFile)" by simp_all
  from inv have "map shape (Stmt F1) = map shape (Stmt F)" by (simp add: passInv_def)
  then have cm: "map Comment (Stmt F1) = map Comment (Stmt F)" by (rule shape_comments)
  have gn: "genStmtOk e \<Longrightarrow> noIgnore e" for e
    by (cases e) (simp_all add: genStmtOk_def)
  have "\<forall>e\<in>set news. noIgnore e"
    using oks gn unfolding news unmatched_def by (simp add: list_all_iff)
  then have n: "\<not> shouldIgnoreStmts news"
    by (auto simp: shouldIgnoreStmts_iff noIgnore_def)
  from ni have o: "\<not> shouldIgnoreStmts (Stmt F1)"
    unfolding shouldIgnore_comments cm[symmetric] by (simp add: shouldIgnoreStmts_iff)
  from n o show ?thesis
    by (auto simp: shouldIgnore_def shouldIgnoreStmts_iff)
qed

lemma MergeWithExisting_merged:
  assumes "files w p = Some d" and "Parse p d = Inr oldFile" and "\<not> shouldIgnore oldFile"
    and "mergedFile genFile oldFile = Some m"
  shows "MergeWithExisting Parse genFile p w = Inr (Some m, w)"
  using assms
  by (auto simp: MergeWithExisting_def ReadFile_def mergedFile_def split: sum.splits)

text \<open>
  C6. Merging is idempotent for a generated file in merged form (\<open>genFileOk\<close>): its
  statements are rules and load statements without an ignore marker, no two with the same
  kind and name (for load statements: the same path); a load statement has its path and
  names its symbols in strictly ascending order; in a rule the named arguments have
  distinct keys, and every value of \<open>srcs\<close>, \<open>deps\<close> or \<open>library\<close> is a string, a non-empty
  list, a \<open>select\<close> or a list \<open>+\<close> \<open>select\<close> as the merger writes them. When
  \<open>MergeWithExisting\<close> has returned a merged file for such a generated file, and that
  merged file is what is read and parsed at a path, then merging the same generated file
  with it returns that merged file again, as it is: the same statements, attributes, list
  elements, dictionary keys and load symbols in the same order, none of them twice, and
  the disk and the log as they were.
\<close>

theorem MergeWithExisting_idempotent:
  assumes "genFileOk genFile"
    and "MergeWithExisting Parse genFile path1 w1 = Inr (Some merged, w1')"
    and "files w2 path2 = Some data2"
    and "Parse path2 data2 = Inr merged"
  shows "MergeWithExisting Parse genFile path2 w2 = Inr (Some merged, w2)"
proof -
  from assms(2) obtain d1 where "ReadFile w1 path1 = Inr d1"
    by (cases "ReadFile w1 path1") (simp_all add: MergeWithExisting_def)
  with assms(2) obtain F where pf: "Parse path1 d1 = Inr F" and
    r: "(if shouldIgnore F then Inr (None, w1)
         else (case mergeStmts (Stmt genFile) F [] of
                 Inl err \<Rightarrow> Inl err
               | Inr (oldFile', newStmt) \<Rightarrow>
                   Inr (Some (oldFile'\<lparr>Stmt := Stmt oldFile' @ newStmt\<rparr>), w1))) =
        Inr (Some merged, w1')"
    by (cases "Parse path1 d1") (simp_all add: MergeWithExisting_def)
  from r have ni: "\<not> shouldIgnore F" by (auto split: if_splits)
  with r obtain F1 news where p1: "mergeStmts (Stmt genFile) F [] = Inr (F1, news)"
    and m: "merged = F1\<lparr>Stmt := Stmt F1 @ news\<rparr>"
    by (cases "mergeStmts (Stmt genFile) F []") (auto split: if_splits)
  have ni2: "\<not> shouldIgnore merged"
    unfolding m by (rule merged_not_ignored[OF assms(1) p1 ni])
  have "mergeStmts (Stmt genFile) merged [] = Inr (merged, [])"
    unfolding m by (rule merge_again[OF assms(1) p1])
  with assms(3,4) ni2 show ?thesis
    by (simp add: MergeWithExisting_def ReadFile_def)
qed

theorem MergeWithExisting_idempotent_witness:
  "MergeWithExisting libraryParse libraryGen ''BUILD.merged'' exampleDisk =
     Inr (Some libraryMerged, exampleDisk)"
proof -
  have 1: "genFileOk libraryGen" by code_simp
  have f: "files exampleDisk ''BUILD'' = Some ''old''"
    by (simp add: exampleDisk_def diskOf_def)
  have p: "libraryParse ''BUILD'' ''old'' = Inr libraryOld"
    by (simp add: libraryParse_def parseTable_def)
  have i: "\<not> shouldIgnore libraryOld" by code_simp
  have m: "mergedFile libraryGen libraryOld = Some libraryMerged" by code_simp
  have 2: "MergeWithExisting libraryParse libraryGen ''BUILD'' exampleDisk =
             Inr (Some libraryMerged, exampleDisk)"
    by (rule MergeWithExisting_merged[where Parse = libraryParse, OF f p i m])
  have 3: "files exampleDisk ''BUILD.merged'' = Some ''merged''"
    by (simp add: exampleDisk_def diskOf_def)
  have 4: "libraryParse ''BUILD.merged'' ''merged'' = Inr libraryMerged"
    by (simp add: libraryParse_def parseTable_def)
  show ?thesis
    by (rule MergeWithExisting_idempotent[where Parse = libraryParse, OF 1 2 3 4])
qed

text \<open>
  Outside that form the second merge can differ from the first. The generated rule
  \<open>go_library(name = a, srcs = [], deps = [//x])\<close> merged with \<open>go_library(name = a)\<close>
  gives the three attributes in the generated order; merging again drops the empty \<open>srcs\<close>
  as an old attribute and appends it as a generated one, behind \<open>deps\<close>.
\<close>

theorem MergeWithExisting_empty_list_counterexample:
  "MergeWithExisting emptySrcsParse emptySrcsGen ''BUILD'' exampleDisk =
     Inr (Some emptySrcsMerged, exampleDisk) \<and>
   MergeWithExisting emptySrcsParse emptySrcsGen ''BUILD.merged'' exampleDisk =
     Inr (Some emptySrcsAgain, exampleDisk) \<and>
   emptySrcsAgain \<noteq> emptySrcsMerged"
proof -
  have f1: "files exampleDisk ''BUILD'' = Some ''old''"
    by (simp add: exampleDisk_def diskOf_def)
  have p1: "emptySrcsParse ''BUILD'' ''old'' = Inr emptySrcsOld"
    by (simp add: emptySrcsParse_def parseTable_def)
  have i1: "\<not> shouldIgnore emptySrcsOld" by code_simp
  have m1: "mergedFile emptySrcsGen emptySrcsOld = Some emptySrcsMerged" by code_simp
  have f2: "files exampleDisk ''BUILD.merged'' = Some ''merged''"
    by (simp add: exampleDisk_def diskOf_def)
  have p2: "emptySrcsParse ''BUILD.merged'' ''merged'' = Inr emptySrcsMerged"
    by (simp add: emptySrcsParse_def parseTable_def)
  have i2: "\<not> shouldIgnore emptySrcsMerged" by code_simp
  have m2: "mergedFile emptySrcsGen emptySrcsMerged = Some emptySrcsAgain" by code_simp
  have ne: "emptySrcsAgain \<noteq> emptySrcsMerged" by code_simp
  from MergeWithExisting_merged[where Parse = emptySrcsParse, OF f1 p1 i1 m1]
    MergeWithExisting_merged[where Parse = emptySrcsParse, OF f2 p2 i2 m2] ne
  show ?thesis by (intro conjI)
qed
section \<open>The symbols of a merged load statement\<close>



lemma firstSym_mem: "firstSym vs k = Some v \<Longrightarrow> v \<in> set vs \<and> stringValue v = k"
  by (auto simp: firstSym_def find_Some_iff)




section \<open>An attribute that is no longer generated\<close>















end
